theory Spec2Isabelle
  imports Main "HOL-Library.Multiset" "HOL-Library.Signed_Division"
begin

section \<open>The coin weighing puzzle: data model\<close>

text \<open>
  The program \<^verbatim>\<open>coin.c\<close> works on C \<^verbatim>\<open>int\<close>s. They are modelled as \<^typ>\<open>int\<close>;
  C's \<^verbatim>\<open>/\<close> and \<^verbatim>\<open>%\<close> truncate towards zero and are \<open>sdiv\<close> and \<open>smod\<close>.
  An array together with its length is a list. A possibility set is the list of the
  entries in front of the terminating token \<^verbatim>\<open>INT_MAX\<close>, so \<^verbatim>\<open>npos\<close> is the length of
  that list.
\<close>

datatype kind = C_EQUAL | C_MORE | C_LESS | C_DOUBLE

datatype error =
    OutOfBounds        \<comment> \<open>a read past the end of an array (undefined in C)\<close>
  | CannotHandle       \<comment> \<open>\<^verbatim>\<open>getselection\<close>: neither type A nor type B, \<^verbatim>\<open>exit(1)\<close>\<close>
  | SelectionError     \<comment> \<open>\<^verbatim>\<open>weigh_sequential\<close>: no selection, prints Error, \<^verbatim>\<open>exit(0)\<close>\<close>
  | MissingError       \<comment> \<open>\<^verbatim>\<open>missing\<close>: no free number, \<^verbatim>\<open>exit(0)\<close>\<close>
  | AddFailure         \<comment> \<open>\<^verbatim>\<open>add\<close>: no candidate, \<^verbatim>\<open>exit(0)\<close>\<close>
  | PrintStaticError   \<comment> \<open>\<^verbatim>\<open>print_static\<close>: unequal or empty pans, \<^verbatim>\<open>exit(1)\<close>\<close>

definition balance :: "int \<Rightarrow> int \<Rightarrow> kind" where
  "balance x y = (if x < y then C_LESS else if x = y then C_EQUAL else C_MORE)"

record coin_cfg =
  all_equal :: int
  sel :: "kind \<Rightarrow> int list"

text \<open>The field \<^verbatim>\<open>size[t]\<close> of the C struct is the length of \<^verbatim>\<open>sel[t]\<close>.\<close>

definition size_of :: "coin_cfg \<Rightarrow> kind \<Rightarrow> int" where
  "size_of cfg t = int (length (sel cfg t))"

definition new_coins :: "int \<Rightarrow> int list" where
  "new_coins n_coins = 0 # [1..n_coins] @ map uminus [1..n_coins]"

definition npos :: "int list \<Rightarrow> int" where
  "npos poss = int (length poss)"

definition num_pos :: "coin_cfg \<Rightarrow> int" where
  "num_pos cfg =
     size_of cfg C_LESS + size_of cfg C_MORE + size_of cfg C_DOUBLE * 2 + all_equal cfg"

subsection \<open>The classifier \<^verbatim>\<open>get_cfg\<close>\<close>

text \<open>
  The inner \<^verbatim>\<open>while\<close> loop of \<^verbatim>\<open>get_cfg\<close> for coin \<open>k\<close>: it runs over the possibility
  set and updates \<^verbatim>\<open>hit\<close>, \<^verbatim>\<open>type\<close> and \<^verbatim>\<open>cfg->all_equal\<close>.
\<close>

fun scan_poss :: "int \<Rightarrow> int list \<Rightarrow> int \<times> kind \<times> int \<Rightarrow> int \<times> kind \<times> int" where
  "scan_poss k [] st = st"
| "scan_poss k (ci # cl) (hit, type, ae) =
     scan_poss k cl
       (if ci > 0 \<and> ci - 1 = k then (hit + 1, C_MORE, ae)
        else if ci < 0 \<and> - ci - 1 = k then (hit + 1, C_LESS, ae)
        else if ci = 0 then (hit, type, 1)
        else (hit, type, ae))"

text \<open>One round of the outer \<^verbatim>\<open>for\<close> loop: classify coin \<open>k\<close> and append it to its group.\<close>

definition cfg_step :: "int list \<Rightarrow> int \<Rightarrow> coin_cfg \<Rightarrow> coin_cfg" where
  "cfg_step c k cfg =
     (case scan_poss k c (0, C_EQUAL, all_equal cfg) of
        (hit, type, ae) \<Rightarrow>
          (let type' = (if hit = 2 then C_DOUBLE else type)
           in \<lparr> all_equal = ae, sel = (sel cfg)(type' := sel cfg type' @ [k]) \<rparr>))"

definition get_cfg :: "int list \<Rightarrow> int \<Rightarrow> coin_cfg" where
  "get_cfg c n = fold (cfg_step c) [0..n - 1] \<lparr> all_equal = 0, sel = (\<lambda>_. []) \<rparr>"

subsection \<open>The weighing\<close>

text \<open>
  \<^verbatim>\<open>sum(c, s, len)\<close> looks for the coin of hypothesis \<open>c\<close> among the first \<open>len\<close> entries
  of \<open>s\<close>; \<open>sum_loop\<close> is its \<^verbatim>\<open>for\<close> loop.
\<close>

fun sum_loop :: "int \<Rightarrow> int list \<Rightarrow> int" where
  "sum_loop c [] = 0"
| "sum_loop c (x # s) =
     (if c > 0 \<and> c - 1 = x then 1
      else if c < 0 \<and> - c - 1 = x then - 1
      else sum_loop c s)"

definition sum_sel :: "int \<Rightarrow> int list \<Rightarrow> int \<Rightarrow> int" where
  "sum_sel c s len = sum_loop c (take (nat len) s)"

text \<open>
  \<^verbatim>\<open>weigh\<close> appends every hypothesis to the result list of its outcome. The result
  \<^verbatim>\<open>r\<close> is indexed by \<^verbatim>\<open>C_EQUAL\<close>, \<^verbatim>\<open>C_MORE\<close> and \<^verbatim>\<open>C_LESS\<close>.
\<close>

definition weigh_step :: "int list \<Rightarrow> int list \<Rightarrow> int \<Rightarrow> int \<Rightarrow> (kind \<Rightarrow> int list) \<Rightarrow> kind \<Rightarrow> int list" where
  "weigh_step s1 s2 len ci r =
     (let bal = balance (sum_sel ci s1 len) (sum_sel ci s2 len)
      in r(bal := r bal @ [ci]))"

definition weigh :: "int list \<Rightarrow> int list \<Rightarrow> int list \<Rightarrow> int \<Rightarrow> kind \<Rightarrow> int list" where
  "weigh c s1 s2 len = fold (weigh_step s1 s2 len) c (\<lambda>_. [])"

subsection \<open>Results that may be an error\<close>

definition bnd :: "error + 'a \<Rightarrow> ('a \<Rightarrow> error + 'b) \<Rightarrow> error + 'b" where
  "bnd r f = (case r of Inl e \<Rightarrow> Inl e | Inr x \<Rightarrow> f x)"

text \<open>
  A copy loop \<^verbatim>\<open>for(j = 0; j < cnt; j++) dst[j] = src[j + off]\<close>: it reads
  \<open>src[off], ..., src[off + cnt - 1]\<close> and reads nothing when \<open>cnt \<le> 0\<close>. A read outside
  of the array is undefined in C and is the error \<open>OutOfBounds\<close> here.
\<close>

definition read_range :: "int list \<Rightarrow> int \<Rightarrow> int \<Rightarrow> error + int list" where
  "read_range src off cnt =
     (if cnt \<le> 0 then Inr []
      else if 0 \<le> off \<and> off + cnt \<le> int (length src)
        then Inr (take (nat cnt) (drop (nat off) src))
      else Inl OutOfBounds)"

subsection \<open>The split selector\<close>

text \<open>\<^verbatim>\<open>get_nkl\<close> returns \<open>r = {n1, n2, k, l}\<close>.\<close>

definition get_nkl :: "coin_cfg \<Rightarrow> int \<times> int \<times> int \<times> int" where
  "get_nkl cfg =
     (let n_more = size_of cfg C_MORE; n_less = size_of cfg C_LESS;
          np = n_more + n_less;
          (n1, n2, l) =
            (if np smod 3 = 0 then
               (if n_more smod 2 \<noteq> 0
                then (let n1 = (n_more + 1) sdiv 2 in (n1, (n_less - n1 + 2) sdiv 3, 2))
                else (let n1 = n_more sdiv 2 in (n1, (n_less - n1) sdiv 3, 0)))
             else if np smod 3 = 1 then
               (if n_more smod 2 \<noteq> 0
                then (let n1 = (n_more + 1) sdiv 2 in (n1, (n_less - n1 + 1) sdiv 3, 1))
                else (let n1 = n_more sdiv 2 in (n1, (n_less - n1 - 1) sdiv 3, 0)))
             else if np smod 3 = 2 then
               (if n_more smod 2 \<noteq> 0
                then (let n1 = (n_more - 1) sdiv 2 in (n1, (n_less - n1 - 1) sdiv 3, - 1))
                else (let n1 = n_more sdiv 2 in (n1, (n_less - n1 + 1) sdiv 3, 0)))
             else (0, 0, 0));
          k = 2 * n1 + n2 - n_more - l
      in (n1, n2, k, l))"

definition switch_more_less :: "coin_cfg \<Rightarrow> coin_cfg" where
  "switch_more_less c = c\<lparr> sel := (sel c)(C_LESS := sel c C_MORE, C_MORE := sel c C_LESS) \<rparr>"

text \<open>
  The selectors return the number of coins on each pan together with the two pans
  \<^verbatim>\<open>*s1\<close> and \<^verbatim>\<open>*s2\<close>.
\<close>

definition get_sel_A :: "coin_cfg \<Rightarrow> error + int \<times> int list \<times> int list" where
  "get_sel_A cfg =
     (let m = size_of cfg C_DOUBLE;
          (n, l) =
            (if m smod 3 = 0 then (m sdiv 3, 0)
             else if m smod 3 = 1 then
               (if size_of cfg C_EQUAL \<noteq> 0 then ((m + 2) sdiv 3, 1) else ((m - 1) sdiv 3, 0))
             else if m smod 3 = 2 then ((m + 1) sdiv 3, 0)
             else (0, 0 :: int))
      in bnd (read_range (sel cfg C_DOUBLE) 0 n) (\<lambda>s1.
         if l = 0 then
           bnd (read_range (sel cfg C_DOUBLE) n n) (\<lambda>s2. Inr (n, s1, s2))
         else
           bnd (read_range (sel cfg C_DOUBLE) n (n - 1)) (\<lambda>s2.
           bnd (read_range (sel cfg C_EQUAL) 0 1) (\<lambda>e. Inr (n, s1, s2 @ e)))))"

definition infeasible :: "int \<times> int \<times> int \<times> int \<Rightarrow> bool" where
  "infeasible r = (case r of (n1, n2, k, l) \<Rightarrow> n1 < 0 \<or> n2 < 0 \<or> k < 0)"

text \<open>
  The part of \<^verbatim>\<open>get_sel_B\<close> after the feasibility test; there \<open>n1\<close>, \<open>n2\<close> and \<open>k\<close>
  are not negative. The loops over the running index \<open>j\<close> are copy loops: the second
  loop for the right pan starts at \<open>j = max 0 (n_more - n1)\<close>.

  \<^verbatim>\<open>get_sel_B\<close> makes no test of the sizes of the groups. When \<open>N=\<close> holds fewer coins than
  \<open>l\<close> asks for, the C program reads \<^verbatim>\<open>sel[C_EQUAL]\<close> beyond its end: the pans then hold
  whatever the memory holds there, which the language leaves undefined. The model
  does not invent such a value; it marks the read by \<open>OutOfBounds\<close>. The statements
  below about a selection of type B therefore say how many coins of \<open>N=\<close> are needed
  (\<open>equal_needed\<close>), and for these configurations the model returns what the program
  returns. In the search that starts on the initial possibility set of at least 3 coins
  such a read never happens (theorem \<open>search_returns_depth\<close>).
\<close>

definition fill_B :: "coin_cfg \<Rightarrow> int \<times> int \<times> int \<times> int \<Rightarrow> error + int \<times> int list \<times> int list" where
  "fill_B cfg r =
     (case r of (n1, n2, k, l) \<Rightarrow>
       (let n_more = size_of cfg C_MORE;
            ns = n1 + n2 + (if l < 0 then - l else 0);
            j = max 0 (n_more - n1)
        in bnd (read_range (sel cfg C_MORE) 0 n1) (\<lambda>a1.
           bnd (read_range (sel cfg C_LESS) 0 n2) (\<lambda>a2.
           bnd (if l < 0 then read_range (sel cfg C_EQUAL) 0 1 else Inr []) (\<lambda>a3.
           bnd (read_range (sel cfg C_MORE) n1 (n_more - n1)) (\<lambda>b1.
           bnd (read_range (sel cfg C_LESS) (j - (n_more - n1) + n2) (n_more - n1 + k - j)) (\<lambda>b2.
           bnd (read_range (sel cfg C_EQUAL) 0 l) (\<lambda>b3.
           Inr (ns, a1 @ a2 @ a3, b1 @ b2 @ b3)))))))))"

text \<open>
  \<^verbatim>\<open>get_sel_B\<close> returns 0 and leaves the pans unset when the numbers are infeasible
  also after the exchange of \<open>N+\<close> and \<open>N-\<close>.
\<close>

definition get_sel_B :: "coin_cfg \<Rightarrow> error + int \<times> int list \<times> int list" where
  "get_sel_B cfg =
     (let r = get_nkl cfg in
      if infeasible r then
        (let cfg' = switch_more_less cfg; r' = get_nkl cfg' in
         if infeasible r' then Inr (0, [], []) else fill_B cfg' r')
      else fill_B cfg r)"

definition getselection :: "coin_cfg \<Rightarrow> error + int \<times> int list \<times> int list" where
  "getselection cfg =
     (if size_of cfg C_MORE = 0 \<and> size_of cfg C_LESS = 0 \<and> all_equal cfg \<noteq> 0
        then get_sel_A cfg
      else if size_of cfg C_DOUBLE = 0 \<and> all_equal cfg = 0
        then get_sel_B cfg
      else Inl CannotHandle)"

definition max3 :: "int \<Rightarrow> int \<Rightarrow> int \<Rightarrow> int" where
  "max3 a b c = (let mab = (if a > b then a else b) in if mab > c then mab else c)"

subsection \<open>The adaptive search\<close>

text \<open>
  \<^verbatim>\<open>weigh_sequential\<close> and \<^verbatim>\<open>split_selection\<close> call each other. An \<^verbatim>\<open>exit\<close> in a branch
  ends the program, so the first error in the order of the calls is the result.
\<close>

function weigh_sequential :: "int list \<Rightarrow> int \<Rightarrow> error + int"
  and split_selection :: "int list \<Rightarrow> int \<Rightarrow> int list \<Rightarrow> int list \<Rightarrow> int \<Rightarrow> error + int" where
  "weigh_sequential c nc =
     (let cfg = get_cfg c nc in
      if num_pos cfg \<le> 1 then Inr 0
      else case getselection cfg of
             Inl e \<Rightarrow> Inl e
           | Inr (n_sel, sl1, sl2) \<Rightarrow>
               if n_sel > 0 then split_selection c nc sl1 sl2 n_sel
               else Inl SelectionError)"
| "split_selection c nc s1 s2 k =
     (let cr = weigh c s1 s2 k in
      bnd (weigh_sequential (cr C_MORE) nc) (\<lambda>r1.
      bnd (weigh_sequential (cr C_EQUAL) nc) (\<lambda>r2.
      bnd (weigh_sequential (cr C_LESS) nc) (\<lambda>r3.
      Inr (1 + max3 r1 r2 r3)))))"
  by pat_completeness auto

subsection \<open>The static strategy: base-3 codes\<close>

text \<open>\<^verbatim>\<open>ipow(x, n)\<close> is only called with \<open>n \<ge> 0\<close>.\<close>

function ipow_loop :: "int \<Rightarrow> int \<Rightarrow> int \<Rightarrow> int" where
  "ipow_loop x n r = (if n \<le> 0 then r else ipow_loop x (n - 1) (r * x))"
  by pat_completeness auto
termination
  by (relation "measure (\<lambda>(x, n, r). nat n)") auto

declare ipow_loop.simps [simp del]

definition ipow :: "int \<Rightarrow> int \<Rightarrow> int" where
  "ipow x n = ipow_loop x n 1"

text \<open>The loop of \<^verbatim>\<open>op\<close> with its variables \<open>x\<close>, \<open>c\<close> and \<open>s\<close>.\<close>

function op_loop :: "int \<Rightarrow> int \<Rightarrow> int \<Rightarrow> int" where
  "op_loop x c s =
     (if x = 0 then s
      else op_loop (x sdiv 3) (c * 3)
             (if x smod 3 = 1 then s + 2 * c else if x smod 3 = 2 then s + c else s))"
  by pat_completeness auto
termination
  by (relation "measure (\<lambda>(x, c, s). nat \<bar>x\<bar>)")
     (auto simp: signed_divide_int_def sgn_if abs_mult)

declare op_loop.simps [simp del]

definition op :: "int \<Rightarrow> int" where
  "op x = op_loop x 1 0"

function digit :: "int \<Rightarrow> int \<Rightarrow> int" where
  "digit x n = (if n > 0 then digit (x sdiv 3) (n - 1) else x smod 3)"
  by pat_completeness auto
termination
  by (relation "measure (\<lambda>(x, n). nat n)") auto

declare digit.simps [simp del]

text \<open>
  In \<^verbatim>\<open>isfree\<close>, \<^verbatim>\<open>missing\<close> and \<^verbatim>\<open>add\<close> the list is the used part of the array of heavy
  codes, that is its first \<open>nc\<close> (or \<open>n\<close>) entries.
\<close>

fun isfree :: "int \<Rightarrow> int list \<Rightarrow> bool" where
  "isfree t [] = True"
| "isfree t (h # hcode) = (if t = h \<or> t = op h then False else isfree t hcode)"

text \<open>
  \<^verbatim>\<open>missing\<close> marks the codes and their complements in a table \<open>t\<close> of \<open>N + 1\<close> flags;
  a mark outside of the table is a write out of bounds.
\<close>

fun mark :: "int list \<Rightarrow> bool list \<Rightarrow> error + bool list" where
  "mark [] t = Inr t"
| "mark (x # b) t =
     (if 0 \<le> x \<and> x < int (length t) \<and> 0 \<le> op x \<and> op x < int (length t)
      then mark b (t[nat x := True, nat (op x) := True])
      else Inl OutOfBounds)"

definition missing :: "int list \<Rightarrow> int \<Rightarrow> int \<Rightarrow> error + int" where
  "missing b n N =
     bnd (read_range b 0 n) (\<lambda>b0.
     bnd (mark b0 (replicate (nat (N + 1)) False)) (\<lambda>t.
       case find (\<lambda>k. \<not> t ! nat k) [1..N] of
         Some k \<Rightarrow> Inr k
       | None \<Rightarrow> Inl MissingError))"

text \<open>\<^verbatim>\<open>qsort(b, cnt, ...)\<close> with \<^verbatim>\<open>compare\<close> sorts the first \<open>cnt\<close> entries ascending.\<close>

definition qsort :: "int list \<Rightarrow> int \<Rightarrow> int list" where
  "qsort b cnt = sort (take (nat cnt) b) @ drop (nat cnt) b"

text \<open>
  \<^verbatim>\<open>getbase(k, b)\<close> calls itself with \<open>k - 1\<close> until \<open>k = 2\<close>; started below 2 it does not
  return, which is the value \<open>None\<close>.
\<close>

partial_function (option) getbase :: "int \<Rightarrow> (error + int list) option" where
  "getbase k =
     (if k = 2 then Some (Inr [1, 8, 3])
      else Option.bind (getbase (k - 1)) (\<lambda>r. Some (bnd r (\<lambda>b.
        let c = ipow 3 (k - 1); n = c sdiv 2 - 1 in
        bnd (missing b n (c - 1)) (\<lambda>m.
        bnd (read_range b 0 n) (\<lambda>b0.
          Inr (qsort (b0 @ map (\<lambda>x. x + c) b0 @ map (\<lambda>x. x + 2 * c) b0
                       @ [2 * c, m, c + op m])
                     (ipow 3 k sdiv 2 - 1))))))))"

declare getbase.simps [code]

function mcomp_loop :: "int \<Rightarrow> int \<Rightarrow> int \<Rightarrow> int \<Rightarrow> int \<Rightarrow> int \<Rightarrow> int" where
  "mcomp_loop j k m hc c s =
     (if j < k then
        (let r = m smod 3; rh = hc smod 3 in
         if r = 0 then mcomp_loop (j + 1) k (m sdiv 3) (hc sdiv 3) (c * 3) (s + rh * c)
         else if rh \<noteq> 0 then 0
         else mcomp_loop (j + 1) k (m sdiv 3) (hc sdiv 3) (c * 3)
                (s + (if r = 1 then 2 else 1) * c))
      else s)"
  by pat_completeness auto
termination
  by (relation "measure (\<lambda>(j, k, m, hc, c, s). nat (k - j))") auto

declare mcomp_loop.simps [simp del]

definition mcomplement :: "int \<Rightarrow> int \<Rightarrow> int \<Rightarrow> int" where
  "mcomplement m hc k = mcomp_loop 0 k m hc 1 0"

text \<open>The inner loop of \<^verbatim>\<open>add\<close> over the members \<open>j\<close>, and the outer loop over \<open>m\<close>.\<close>

fun add_inner :: "int \<Rightarrow> int list \<Rightarrow> int \<Rightarrow> nat list \<Rightarrow> int list option" where
  "add_inner m hc k [] = None"
| "add_inner m hc k (j # js) =
     (let t = mcomplement m (hc ! j) k in
      if t \<noteq> 0 \<and> isfree t hc
      then Some (qsort (hc[j := t] @ [m]) (int (length hc) + 1))
      else add_inner m hc k js)"

fun add_outer :: "int list \<Rightarrow> int \<Rightarrow> int list \<Rightarrow> error + int list" where
  "add_outer hc k [] = Inl AddFailure"
| "add_outer hc k (m # ms) =
     (if \<not> isfree m hc then add_outer hc k ms
      else case add_inner m hc k [0..<length hc] of
             Some hc' \<Rightarrow> Inr hc'
           | None \<Rightarrow> add_outer hc k ms)"

definition add :: "int list \<Rightarrow> int \<Rightarrow> int \<Rightarrow> error + int list" where
  "add hc k nc = add_outer (take (nat nc) hc) k [1..ipow 3 k - 1]"

text \<open>
  Of \<^verbatim>\<open>print_static\<close> only the test of the pans matters: in every round the pans
  must be of equal size and not empty.
\<close>

definition pan_count :: "int list \<Rightarrow> int \<Rightarrow> int \<Rightarrow> int" where
  "pan_count hcode i d = int (length (filter (\<lambda>h. digit h i = d) hcode))"

definition print_static :: "int \<Rightarrow> int \<Rightarrow> int list \<Rightarrow> error + unit" where
  "print_static k nc hcode =
     (if list_all (\<lambda>i. \<not> (pan_count (take (nat nc) hcode) i 1 = 0
                          \<or> pan_count (take (nat nc) hcode) i 1 \<noteq> pan_count (take (nat nc) hcode) i 2))
           (rev [0..k - 1])
      then Inr () else Inl PrintStaticError)"

text \<open>The loop of \<^verbatim>\<open>weigh_static\<close> that finds the closest base solution.\<close>

function find_base :: "int \<Rightarrow> int \<Rightarrow> int \<Rightarrow> int \<times> int" where
  "find_base n_coins k n =
     (let n_base = (ipow 3 k - 1) sdiv 2 - 1;
          n' = (if n_base \<le> n_coins then n_base else n)
      in if n_base \<ge> n_coins then (k, n') else find_base n_coins (k + 1) n')"
  by pat_completeness auto

function add_loop :: "int list \<Rightarrow> int \<Rightarrow> int \<Rightarrow> int \<Rightarrow> error + int list" where
  "add_loop hcode k n n_coins =
     (if n < n_coins then bnd (add hcode k n) (\<lambda>hcode'. add_loop hcode' k (n + 1) n_coins)
      else Inr hcode)"
  by pat_completeness auto
termination
  by (relation "measure (\<lambda>(hcode, k, n, n_coins). nat (n_coins - n))") auto

declare add_loop.simps [simp del]

definition weigh_static :: "int \<Rightarrow> (error + int) option" where
  "weigh_static n_coins =
     (case find_base n_coins 2 0 of (k, n) \<Rightarrow>
        Option.bind (getbase (if n = n_coins then k else k - 1)) (\<lambda>r. Some (
          bnd r (\<lambda>hcode.
          bnd (add_loop hcode k n n_coins) (\<lambda>hcode'.
          bnd (print_static k n_coins hcode') (\<lambda>_. Inr k))))))"

section \<open>Properties of the weighing\<close>

definition outcome :: "int list \<Rightarrow> int list \<Rightarrow> int \<Rightarrow> int \<Rightarrow> kind" where
  "outcome s1 s2 len ci = balance (sum_sel ci s1 len) (sum_sel ci s2 len)"

lemma fold_weigh_step:
  "fold (weigh_step s1 s2 len) c r b = r b @ filter (\<lambda>ci. outcome s1 s2 len ci = b) c"
  by (induction c arbitrary: r) (simp_all add: weigh_step_def outcome_def Let_def)

lemma weigh_filter: "weigh c s1 s2 len b = filter (\<lambda>ci. outcome s1 s2 len ci = b) c"
  by (simp add: weigh_def fold_weigh_step)

lemma outcome_not_double: "outcome s1 s2 len ci \<noteq> C_DOUBLE"
  by (simp add: outcome_def balance_def)

lemma mset_three_way:
  "(\<And>x. f x \<noteq> C_DOUBLE) \<Longrightarrow>
   mset (filter (\<lambda>x. f x = C_MORE) c) + mset (filter (\<lambda>x. f x = C_EQUAL) c)
     + mset (filter (\<lambda>x. f x = C_LESS) c) = mset c"
proof (induction c)
  case Nil
  then show ?case by simp
next
  case (Cons a c)
  then show ?case by (cases "f a") auto
qed

text \<open>
  Claim C1. For every possibility set and every pair of pans, \<^verbatim>\<open>weigh\<close> splits the set
  into the three outcome lists: taken together as multisets they are the set that was
  weighed (nothing lost, nothing duplicated), and no hypothesis is in two of them.
\<close>

theorem weigh_partition:
  "mset (weigh c s1 s2 len C_MORE) + mset (weigh c s1 s2 len C_EQUAL)
      + mset (weigh c s1 s2 len C_LESS) = mset c
   \<and> set (weigh c s1 s2 len C_MORE) \<union> set (weigh c s1 s2 len C_EQUAL)
      \<union> set (weigh c s1 s2 len C_LESS) = set c
   \<and> set (weigh c s1 s2 len C_MORE) \<inter> set (weigh c s1 s2 len C_EQUAL) = {}
   \<and> set (weigh c s1 s2 len C_MORE) \<inter> set (weigh c s1 s2 len C_LESS) = {}
   \<and> set (weigh c s1 s2 len C_EQUAL) \<inter> set (weigh c s1 s2 len C_LESS) = {}"
proof -
  have m: "mset (weigh c s1 s2 len C_MORE) + mset (weigh c s1 s2 len C_EQUAL)
      + mset (weigh c s1 s2 len C_LESS) = mset c"
    unfolding weigh_filter by (rule mset_three_way) (rule outcome_not_double)
  have "set_mset (mset (weigh c s1 s2 len C_MORE) + mset (weigh c s1 s2 len C_EQUAL)
      + mset (weigh c s1 s2 len C_LESS)) = set_mset (mset c)"
    by (simp only: m)
  then have u: "set (weigh c s1 s2 len C_MORE) \<union> set (weigh c s1 s2 len C_EQUAL)
      \<union> set (weigh c s1 s2 len C_LESS) = set c"
    by simp
  have d: "set (weigh c s1 s2 len C_MORE) \<inter> set (weigh c s1 s2 len C_EQUAL) = {}"
    "set (weigh c s1 s2 len C_MORE) \<inter> set (weigh c s1 s2 len C_LESS) = {}"
    "set (weigh c s1 s2 len C_EQUAL) \<inter> set (weigh c s1 s2 len C_LESS) = {}"
    by (auto simp: weigh_filter)
  from m u d show ?thesis by blast
qed

section \<open>The classifier computes the type of every coin\<close>

text \<open>
  \<open>coin_hyp k ci\<close>: the hypothesis \<open>ci\<close> is about coin \<open>k\<close> (the two tests of the loops).
  \<open>ctype c k\<close> is the group \<^verbatim>\<open>get_cfg\<close> puts coin \<open>k\<close> into.
\<close>

definition coin_hyp :: "int \<Rightarrow> int \<Rightarrow> bool" where
  "coin_hyp k ci = ((ci > 0 \<and> ci - 1 = k) \<or> (ci < 0 \<and> - ci - 1 = k))"

definition ctype :: "int list \<Rightarrow> int \<Rightarrow> kind" where
  "ctype c k = (case scan_poss k c (0, C_EQUAL, 0) of
                  (hit, type, ae) \<Rightarrow> if hit = 2 then C_DOUBLE else type)"

lemma scan_poss_hit:
  "fst (scan_poss k c (hit, type, ae)) = hit + int (length (filter (coin_hyp k) c))"
  by (induction c arbitrary: hit type ae) (auto simp: coin_hyp_def)

lemma scan_poss_ae:
  "snd (snd (scan_poss k c (hit, type, ae))) = (if 0 \<in> set c then 1 else ae)"
  by (induction c arbitrary: hit type ae) auto

lemma scan_poss_type_indep:
  "fst (snd (scan_poss k c (hit, type, ae))) = fst (snd (scan_poss k c (hit', type, ae')))"
  by (induction c arbitrary: hit hit' type ae ae') auto

lemma scan_poss_type_cases:
  "fst (snd (scan_poss k c (hit, type, ae))) =
     (if filter (coin_hyp k) c = [] then type
      else if last (filter (coin_hyp k) c) > 0 then C_MORE else C_LESS)"
  by (induction c arbitrary: hit type ae) (auto simp: coin_hyp_def)

lemma cfg_step_eq:
  "cfg_step c k cfg =
     \<lparr> all_equal = (if 0 \<in> set c then 1 else all_equal cfg),
       sel = (sel cfg)(ctype c k := sel cfg (ctype c k) @ [k]) \<rparr>"
proof -
  obtain h t a where s: "scan_poss k c (0, C_EQUAL, all_equal cfg) = (h, t, a)"
    by (cases "scan_poss k c (0, C_EQUAL, all_equal cfg)")
  obtain h' t' a' where s': "scan_poss k c (0, C_EQUAL, 0) = (h', t', a')"
    by (cases "scan_poss k c (0, C_EQUAL, 0)")
  have "h = h'" using scan_poss_hit[of k c 0 C_EQUAL "all_equal cfg"] scan_poss_hit[of k c 0 C_EQUAL 0] s s'
    by simp
  moreover have "t = t'" using scan_poss_type_indep[of k c 0 C_EQUAL "all_equal cfg" 0 0] s s'
    by simp
  moreover have "a = (if 0 \<in> set c then 1 else all_equal cfg)"
    using scan_poss_ae[of k c 0 C_EQUAL "all_equal cfg"] s by simp
  ultimately show ?thesis
    by (simp add: cfg_step_def ctype_def s s' Let_def)
qed

lemma fold_cfg_step_sel:
  "sel (fold (cfg_step c) ks cfg) t = sel cfg t @ filter (\<lambda>k. ctype c k = t) ks"
  by (induction ks arbitrary: cfg) (auto simp: cfg_step_eq)

lemma fold_cfg_step_all_equal:
  "all_equal (fold (cfg_step c) ks cfg) = (if ks \<noteq> [] \<and> 0 \<in> set c then 1 else all_equal cfg)"
  by (induction ks arbitrary: cfg) (auto simp: cfg_step_eq)

lemma sel_get_cfg: "sel (get_cfg c n) t = filter (\<lambda>k. ctype c k = t) [0..n - 1]"
  by (simp add: get_cfg_def fold_cfg_step_sel)

lemma all_equal_get_cfg: "all_equal (get_cfg c n) = (if 0 < n \<and> 0 \<in> set c then 1 else 0)"
  by (auto simp add: get_cfg_def fold_cfg_step_all_equal)

lemma ctype_eq:
  "ctype c k =
     (if length (filter (coin_hyp k) c) = 2 then C_DOUBLE
      else if filter (coin_hyp k) c = [] then C_EQUAL
      else if last (filter (coin_hyp k) c) > 0 then C_MORE else C_LESS)"
proof -
  obtain h t a where s: "scan_poss k c (0, C_EQUAL, 0) = (h, t, a)"
    by (cases "scan_poss k c (0, C_EQUAL, 0)")
  show ?thesis
    using scan_poss_hit[of k c 0 C_EQUAL 0] scan_poss_type_cases[of k c 0 C_EQUAL 0] s
    by (simp add: ctype_def)
qed

section \<open>The numbers of the split selector\<close>

lemma sdiv_3_exact: "(3 * y) sdiv 3 = (y::int)"
  by (simp add: signed_divide_int_def sgn_if abs_mult)

lemma sdiv_2_nonneg: "0 \<le> (x::int) \<Longrightarrow> x sdiv 2 = x div 2"
  by (simp add: signed_divide_int_def sgn_if)

lemma smod_nonneg: "0 \<le> (x::int) \<Longrightarrow> 0 < y \<Longrightarrow> x smod y = x mod y"
  by (simp add: signed_modulo_int_def sgn_if)

text \<open>The numbers of \<^verbatim>\<open>get_nkl\<close> in closed form: with \<open>t = (p + q) div 3\<close> the three
  outcome sizes \<open>n1 + k\<close>, \<open>p - n1 + n2\<close> and \<open>q - n2 - k\<close> are \<open>t\<close> or \<open>t + 1\<close>.\<close>

lemma get_nkl_closed:
  fixes cfg :: coin_cfg
  defines "p \<equiv> size_of cfg C_MORE" and "q \<equiv> size_of cfg C_LESS"
  defines "t \<equiv> (p + q) div 3"
  obtains n1 n2 k l where "get_nkl cfg = (n1, n2, k, l)"
    "0 \<le> n1" "n1 \<le> p" "l = - 1 \<or> l = 0 \<or> l = 1 \<or> l = 2"
    "t \<le> n1 + k" "n1 + k \<le> t + 1"
    "t \<le> p - n1 + n2" "p - n1 + n2 \<le> t + 1"
    "t \<le> q - n2 - k" "q - n2 - k \<le> t + 1"
    "k = 2 * n1 + n2 - p - l"
    "infeasible (n1, n2, k, l) \<longrightarrow> 2 * t + 1 \<le> p"
    "infeasible (n1, n2, k, l) \<and> (p + q) mod 3 \<noteq> 0 \<longrightarrow> 2 * t + 2 \<le> p"
proof -
  have p0: "0 \<le> p" and q0: "0 \<le> q" by (simp_all add: p_def q_def size_of_def)
  have m3: "(p + q) smod 3 = (p + q) mod 3" using p0 q0 by (simp add: smod_nonneg)
  have m2: "p smod 2 = p mod 2" using p0 by (simp add: smod_nonneg)
  have pq: "p + q = 3 * t + (p + q) mod 3" by (simp add: t_def)
  have t0: "0 \<le> t" using p0 q0 by (simp add: t_def)
  define h where "h = p div 2"
  have ph: "p = 2 * h + p mod 2" by (simp add: h_def)
  have h0: "0 \<le> h" using p0 by (simp add: h_def)
  have r3: "(p + q) mod 3 = 0 \<or> (p + q) mod 3 = 1 \<or> (p + q) mod 3 = 2" by presburger
  have r2: "p mod 2 = 0 \<or> p mod 2 = 1" by presburger
  have d0: "p sdiv 2 = h" using p0 by (simp add: sdiv_2_nonneg h_def)
  have d1: "(p + 1) sdiv 2 = h + 1" if "p mod 2 = 1"
  proof -
    have "p + 1 = 2 * (h + 1)" using ph that by simp
    then have "(p + 1) div 2 = h + 1" by simp
    then show ?thesis using p0 by (simp add: sdiv_2_nonneg)
  qed
  have d2: "(p - 1) sdiv 2 = h" if "p mod 2 = 1"
  proof -
    have e: "p - 1 = 2 * h" using ph that by simp
    then have "(p - 1) div 2 = h" by simp
    moreover have "0 \<le> p - 1" using e h0 by simp
    ultimately show ?thesis by (simp add: sdiv_2_nonneg)
  qed
  have s1: "(3 * t - 3 * h) sdiv 3 = t - h"
    using sdiv_3_exact[of "t - h"] by (simp add: algebra_simps)
  have s2: "(3 * t - 3 * h + 3) sdiv 3 = t - h + 1" "(3 + 3 * t - 3 * h) sdiv 3 = t - h + 1"
    "(3 + (3 * t - 3 * h)) sdiv 3 = t - h + 1"
    using sdiv_3_exact[of "t - h + 1"] by (simp_all add: algebra_simps)
  note defs = get_nkl_def p_def[symmetric] q_def[symmetric] Let_def m3 m2
  from r3 r2 consider
      (a) "(p + q) mod 3 = 0" "p mod 2 = 1" | (b) "(p + q) mod 3 = 0" "p mod 2 = 0"
    | (c) "(p + q) mod 3 = 1" "p mod 2 = 1" | (d) "(p + q) mod 3 = 1" "p mod 2 = 0"
    | (e) "(p + q) mod 3 = 2" "p mod 2 = 1" | (f) "(p + q) mod 3 = 2" "p mod 2 = 0"
    by blast
  then show thesis
  proof cases
    case a
    have x: "q - (h + 1) + 2 = 3 * (t - h)" using pq ph a by simp
    have g: "get_nkl cfg = (h + 1, t - h, t - h - 1, 2)"
      unfolding defs using a by (simp add: d1 x s1 s2) (use ph a in simp)
    show thesis by (rule that[OF g]) (use pq ph a h0 t0 in \<open>auto simp: infeasible_def\<close>)
  next
    case b
    have x: "q - h = 3 * (t - h)" using pq ph b by simp
    have g: "get_nkl cfg = (h, t - h, t - h, 0)"
      unfolding defs using b by (simp add: d0 x s1 s2) (use ph b in simp)
    show thesis by (rule that[OF g]) (use pq ph b h0 t0 in \<open>auto simp: infeasible_def\<close>)
  next
    case c
    have x: "q - (h + 1) + 1 = 3 * (t - h)" using pq ph c by simp
    have g: "get_nkl cfg = (h + 1, t - h, t - h, 1)"
      unfolding defs using c by (simp add: d1 x s1 s2) (use ph c in simp)
    show thesis by (rule that[OF g]) (use pq ph c h0 t0 in \<open>auto simp: infeasible_def\<close>)
  next
    case d
    have x: "q - h - 1 = 3 * (t - h)" using pq ph d by simp
    have g: "get_nkl cfg = (h, t - h, t - h, 0)"
      unfolding defs using d by (simp add: d0 x s1 s2) (use ph d in simp)
    show thesis by (rule that[OF g]) (use pq ph d h0 t0 in \<open>auto simp: infeasible_def\<close>)
  next
    case e
    have x: "q - h - 1 = 3 * (t - h)" using pq ph e by simp
    have g: "get_nkl cfg = (h, t - h, t - h, - 1)"
      unfolding defs using e by (simp add: d2 x s1 s2) (use ph e in simp)
    show thesis by (rule that[OF g]) (use pq ph e h0 t0 in \<open>auto simp: infeasible_def\<close>)
  next
    case f
    have x: "q - h + 1 = 3 * (t - h + 1)" using pq ph f by simp
    have g: "get_nkl cfg = (h, t - h + 1, t - h + 1, 0)"
      unfolding defs using f by (simp add: d0 x s1 s2) (use ph f in simp)
    show thesis by (rule that[OF g]) (use pq ph f h0 t0 in \<open>auto simp: infeasible_def\<close>)
  qed
qed

section \<open>Outcomes of the hypotheses of the coins on the pans\<close>

lemma sum_loop_eq: "sum_loop ci s = (if ci \<noteq> 0 \<and> \<bar>ci\<bar> - 1 \<in> set s then sgn ci else 0)"
  by (induction s) auto

lemma outcome_left:
  "ci \<noteq> 0 \<Longrightarrow> \<bar>ci\<bar> - 1 \<in> set (take (nat len) s1) \<Longrightarrow> \<bar>ci\<bar> - 1 \<notin> set (take (nat len) s2)
   \<Longrightarrow> outcome s1 s2 len ci = (if ci > 0 then C_MORE else C_LESS)"
  by (simp add: outcome_def sum_sel_def sum_loop_eq balance_def sgn_if)

lemma outcome_right:
  "ci \<noteq> 0 \<Longrightarrow> \<bar>ci\<bar> - 1 \<notin> set (take (nat len) s1) \<Longrightarrow> \<bar>ci\<bar> - 1 \<in> set (take (nat len) s2)
   \<Longrightarrow> outcome s1 s2 len ci = (if ci > 0 then C_LESS else C_MORE)"
  by (simp add: outcome_def sum_sel_def sum_loop_eq balance_def sgn_if)

lemma outcome_none:
  "\<bar>ci\<bar> - 1 \<notin> set (take (nat len) s1) \<Longrightarrow> \<bar>ci\<bar> - 1 \<notin> set (take (nat len) s2)
   \<Longrightarrow> outcome s1 s2 len ci = C_EQUAL"
  by (simp add: outcome_def sum_sel_def sum_loop_eq balance_def)

lemma outcome_zero: "outcome s1 s2 len 0 = C_EQUAL"
  by (simp add: outcome_def sum_sel_def sum_loop_eq balance_def)

lemma length_filter_lower:
  assumes "distinct ys" "\<And>y. y \<in> set ys \<Longrightarrow> y \<in> set c \<and> P y"
  shows "length ys \<le> length (filter P c)"
proof -
  have "set ys \<subseteq> set (filter P c)" using assms(2) by auto
  then have "card (set ys) \<le> card (set (filter P c))" by (intro card_mono) auto
  also have "\<dots> \<le> length (filter P c)" by (rule card_length)
  finally show ?thesis using assms(1) by (simp add: distinct_card)
qed

definition hyps :: "int \<Rightarrow> int list \<Rightarrow> int list" where
  "hyps sg xs = map (\<lambda>x. sg * (x + 1)) xs"

lemma distinct_hyps: "sg = 1 \<or> sg = - 1 \<Longrightarrow> distinct xs \<Longrightarrow> distinct (hyps sg xs)"
  by (auto simp: hyps_def distinct_map inj_on_def)

lemma hyps_disjoint:
  "sg = 1 \<or> sg = - 1 \<Longrightarrow> \<forall>x\<in>set xs. 0 \<le> x \<Longrightarrow> \<forall>y\<in>set ys. 0 \<le> y
   \<Longrightarrow> set (hyps sg xs) \<inter> set (hyps (- sg) ys) = {}"
  by (fastforce simp: hyps_def)

lemma distinct_hyps_append:
  assumes "sg = 1 \<or> sg = - 1" "distinct xs" "distinct ys"
    "\<forall>x\<in>set xs. 0 \<le> x" "\<forall>y\<in>set ys. 0 \<le> y"
  shows "distinct (hyps sg xs @ hyps (- sg) ys)"
proof -
  have "- sg = 1 \<or> - sg = - 1" using assms(1) by auto
  then have "distinct (hyps (- sg) ys)" using assms(3) by (rule distinct_hyps)
  moreover have "distinct (hyps sg xs)" using assms(1,2) by (rule distinct_hyps)
  ultimately show ?thesis using hyps_disjoint[OF assms(1,4,5)] by simp
qed

definition heavy_side :: "int \<Rightarrow> kind" where
  "heavy_side sg = (if sg = 1 then C_MORE else C_LESS)"

definition light_side :: "int \<Rightarrow> kind" where
  "light_side sg = (if sg = 1 then C_LESS else C_MORE)"

lemma pans_lower_bounds:
  fixes c :: "int list"
  assumes sg: "sg = 1 \<or> sg = - 1"
    and dist: "distinct (A1 @ B1 @ A2 @ B2 @ R)"
    and eq: "(set A3 \<union> set B3) \<inter> set (A1 @ B1 @ A2 @ B2 @ R) = {}"
    and more: "\<forall>x\<in>set (A1 @ B1). 0 \<le> x \<and> sg * (x + 1) \<in> set c"
    and less: "\<forall>x\<in>set (A2 @ B2 @ R). 0 \<le> x \<and> - sg * (x + 1) \<in> set c"
    and s1: "take (nat len) s1 = A1 @ A2 @ A3" and s2: "take (nat len) s2 = B1 @ B2 @ B3"
  shows "length A1 + length B2 \<le> length (filter (\<lambda>ci. outcome s1 s2 len ci = heavy_side sg) c)"
    and "length B1 + length A2 \<le> length (filter (\<lambda>ci. outcome s1 s2 len ci = light_side sg) c)"
    and "length R \<le> length (filter (\<lambda>ci. outcome s1 s2 len ci = C_EQUAL) c)"
proof -
  have in1: "x \<in> set (take (nat len) s1) \<longleftrightarrow> x \<in> set A1 \<or> x \<in> set A2 \<or> x \<in> set A3" for x
    by (simp add: s1)
  have in2: "x \<in> set (take (nat len) s2) \<longleftrightarrow> x \<in> set B1 \<or> x \<in> set B2 \<or> x \<in> set B3" for x
    by (simp add: s2)
  have abs1: "\<bar>sg * (x + 1)\<bar> - 1 = x" "\<bar>- sg * (x + 1)\<bar> - 1 = x" "sg * (x + 1) \<noteq> 0"
    "- sg * (x + 1) \<noteq> 0" if "0 \<le> x" for x
    using sg that by (auto simp: abs_mult)
  have "length (hyps sg A1 @ hyps (- sg) B2) \<le> length (filter (\<lambda>ci. outcome s1 s2 len ci = heavy_side sg) c)"
  proof (rule length_filter_lower)
    show "distinct (hyps sg A1 @ hyps (- sg) B2)"
      using sg dist more less by (intro distinct_hyps_append) auto
  next
    fix y assume "y \<in> set (hyps sg A1 @ hyps (- sg) B2)"
    then consider x where "x \<in> set A1" "y = sg * (x + 1)" | x where "x \<in> set B2" "y = - sg * (x + 1)"
      by (auto simp: hyps_def)
    then show "y \<in> set c \<and> outcome s1 s2 len y = heavy_side sg"
    proof cases
      case 1
      then have x0: "0 \<le> x" "y \<in> set c" using more by auto
      have "x \<notin> set B1" "x \<notin> set B2" "x \<notin> set B3" using 1(1) dist eq by auto
      then have "outcome s1 s2 len y = (if y > 0 then C_MORE else C_LESS)"
        using 1(1) abs1[OF x0(1)] unfolding 1(2) by (intro outcome_left) (simp_all add: in1 in2)
      then show ?thesis using x0 sg 1(2) by (auto simp: heavy_side_def)
    next
      case 2
      then have x0: "0 \<le> x" "y \<in> set c" using less by auto
      have "x \<notin> set A1" "x \<notin> set A2" "x \<notin> set A3" using 2(1) dist eq by auto
      then have "outcome s1 s2 len y = (if y > 0 then C_LESS else C_MORE)"
        using 2(1) abs1[OF x0(1)] unfolding 2(2) by (intro outcome_right) (simp_all add: in1 in2)
      then show ?thesis using x0 sg 2(2) by (auto simp: heavy_side_def)
    qed
  qed
  then show "length A1 + length B2 \<le> length (filter (\<lambda>ci. outcome s1 s2 len ci = heavy_side sg) c)"
    by (simp add: hyps_def)
  have "length (hyps sg B1 @ hyps (- sg) A2) \<le> length (filter (\<lambda>ci. outcome s1 s2 len ci = light_side sg) c)"
  proof (rule length_filter_lower)
    show "distinct (hyps sg B1 @ hyps (- sg) A2)"
      using sg dist more less by (intro distinct_hyps_append) auto
  next
    fix y assume "y \<in> set (hyps sg B1 @ hyps (- sg) A2)"
    then consider x where "x \<in> set B1" "y = sg * (x + 1)" | x where "x \<in> set A2" "y = - sg * (x + 1)"
      by (auto simp: hyps_def)
    then show "y \<in> set c \<and> outcome s1 s2 len y = light_side sg"
    proof cases
      case 1
      then have x0: "0 \<le> x" "y \<in> set c" using more by auto
      have "x \<notin> set A1" "x \<notin> set A2" "x \<notin> set A3" using 1(1) dist eq by auto
      then have "outcome s1 s2 len y = (if y > 0 then C_LESS else C_MORE)"
        using 1(1) abs1[OF x0(1)] unfolding 1(2) by (intro outcome_right) (simp_all add: in1 in2)
      then show ?thesis using x0 sg 1(2) by (auto simp: light_side_def)
    next
      case 2
      then have x0: "0 \<le> x" "y \<in> set c" using less by auto
      have "x \<notin> set B1" "x \<notin> set B2" "x \<notin> set B3" using 2(1) dist eq by auto
      then have "outcome s1 s2 len y = (if y > 0 then C_MORE else C_LESS)"
        using 2(1) abs1[OF x0(1)] unfolding 2(2) by (intro outcome_left) (simp_all add: in1 in2)
      then show ?thesis using x0 sg 2(2) by (auto simp: light_side_def)
    qed
  qed
  then show "length B1 + length A2 \<le> length (filter (\<lambda>ci. outcome s1 s2 len ci = light_side sg) c)"
    by (simp add: hyps_def)
  have "length (hyps (- sg) R) \<le> length (filter (\<lambda>ci. outcome s1 s2 len ci = C_EQUAL) c)"
  proof (rule length_filter_lower)
    show "distinct (hyps (- sg) R)" using sg dist by (auto simp: distinct_hyps)
  next
    fix y assume "y \<in> set (hyps (- sg) R)"
    then obtain x where x: "x \<in> set R" "y = - sg * (x + 1)" by (auto simp: hyps_def)
    then have x0: "0 \<le> x" "y \<in> set c" using less by auto
    have "x \<notin> set A1" "x \<notin> set A2" "x \<notin> set A3" "x \<notin> set B1" "x \<notin> set B2" "x \<notin> set B3"
      using x(1) dist eq by auto
    then have "outcome s1 s2 len y = C_EQUAL"
      using x(1) abs1[OF x0(1)] unfolding x(2) by (intro outcome_none) (simp_all add: in1 in2)
    then show "y \<in> set c \<and> outcome s1 s2 len y = C_EQUAL" using x0 by simp
  qed
  then show "length R \<le> length (filter (\<lambda>ci. outcome s1 s2 len ci = C_EQUAL) c)"
    by (simp add: hyps_def)
qed

section \<open>The pans of a type B configuration\<close>

lemma read_range_Inr:
  assumes "read_range src off cnt = Inr xs"
  shows "xs = take (nat cnt) (drop (nat off) src)" and "int (length xs) = max 0 cnt"
  using assms by (auto simp: read_range_def split: if_splits)

lemma bnd_Inr: "bnd r f = Inr y \<longleftrightarrow> (\<exists>x. r = Inr x \<and> f x = Inr y)"
  by (cases r) (simp_all add: bnd_def)

lemma fill_B_Inr:
  assumes f: "fill_B cfg (n1, n2, k, l) = Inr (ns, s1, s2)"
    and n1: "0 \<le> n1" "n1 \<le> size_of cfg C_MORE"
  shows "s1 = take (nat n1) (sel cfg C_MORE) @ take (nat n2) (sel cfg C_LESS)
              @ (if l < 0 then take 1 (sel cfg C_EQUAL) else [])"
    and "s2 = drop (nat n1) (sel cfg C_MORE) @ take (nat k) (drop (nat n2) (sel cfg C_LESS))
              @ take (nat l) (sel cfg C_EQUAL)"
    and "ns = n1 + n2 + (if l < 0 then - l else 0)"
    and "int (length s1) = n1 + max 0 n2 + (if l < 0 then 1 else 0)"
    and "int (length s2) = size_of cfg C_MORE - n1 + max 0 k + max 0 l"
proof -
  let ?p = "size_of cfg C_MORE"
  have j: "max 0 (?p - n1) = ?p - n1" using n1 by simp
  from f obtain a1 a2 a3 b1 b2 b3 where
    a1: "read_range (sel cfg C_MORE) 0 n1 = Inr a1" and
    a2: "read_range (sel cfg C_LESS) 0 n2 = Inr a2" and
    a3: "(if l < 0 then read_range (sel cfg C_EQUAL) 0 1 else Inr []) = Inr a3" and
    b1: "read_range (sel cfg C_MORE) n1 (?p - n1) = Inr b1" and
    b2: "read_range (sel cfg C_LESS) n2 k = Inr b2" and
    b3: "read_range (sel cfg C_EQUAL) 0 l = Inr b3" and
    r: "ns = n1 + n2 + (if l < 0 then - l else 0)" "s1 = a1 @ a2 @ a3" "s2 = b1 @ b2 @ b3"
    unfolding fill_B_def by (auto simp: bnd_Inr j Let_def)
  have a3': "a3 = (if l < 0 then take 1 (sel cfg C_EQUAL) else [])"
    "int (length a3) = (if l < 0 then 1 else 0)"
    using a3 read_range_Inr[of "sel cfg C_EQUAL" 0 1 a3] by (auto split: if_splits)
  have b1': "b1 = drop (nat n1) (sel cfg C_MORE)"
    using read_range_Inr(1)[OF b1] n1 by (simp add: size_of_def)
  show "s1 = take (nat n1) (sel cfg C_MORE) @ take (nat n2) (sel cfg C_LESS)
              @ (if l < 0 then take 1 (sel cfg C_EQUAL) else [])"
    using r(2) read_range_Inr(1)[OF a1] read_range_Inr(1)[OF a2] a3'(1) by simp
  show "s2 = drop (nat n1) (sel cfg C_MORE) @ take (nat k) (drop (nat n2) (sel cfg C_LESS))
              @ take (nat l) (sel cfg C_EQUAL)"
    using r(3) b1' read_range_Inr(1)[OF b2] read_range_Inr(1)[OF b3] by simp
  show "ns = n1 + n2 + (if l < 0 then - l else 0)" by (rule r(1))
  show "int (length s1) = n1 + max 0 n2 + (if l < 0 then 1 else 0)"
    using r(2) read_range_Inr(2)[OF a1] read_range_Inr(2)[OF a2] a3'(2) n1 by simp
  show "int (length s2) = size_of cfg C_MORE - n1 + max 0 k + max 0 l"
    using r(3) read_range_Inr(2)[OF b1] read_range_Inr(2)[OF b2] read_range_Inr(2)[OF b3] n1 by simp
qed

text \<open>
  The split of a type B configuration: the three outcome lists have at least
  \<open>a\<close>, \<open>b\<close> and \<open>e\<close> entries, numbers that are \<open>t\<close> or \<open>t + 1\<close> and sum up to \<open>p + q\<close>.
  \<open>sg\<close> is 1 when \<open>sel cfg C_MORE\<close> holds the coins that may be heavy, and -1 after
  \<^verbatim>\<open>switch_more_less\<close>.
\<close>

lemma fill_B_lower_bounds:
  fixes cfg :: coin_cfg and c :: "int list"
  defines "p \<equiv> size_of cfg C_MORE" and "q \<equiv> size_of cfg C_LESS"
  assumes sg: "sg = 1 \<or> sg = - 1"
    and dist: "distinct (sel cfg C_MORE @ sel cfg C_LESS)"
    and eq: "set (sel cfg C_EQUAL) \<inter> set (sel cfg C_MORE @ sel cfg C_LESS) = {}"
    and more: "\<forall>x\<in>set (sel cfg C_MORE). 0 \<le> x \<and> sg * (x + 1) \<in> set c"
    and less: "\<forall>x\<in>set (sel cfg C_LESS). 0 \<le> x \<and> - sg * (x + 1) \<in> set c"
    and f: "fill_B cfg (get_nkl cfg) = Inr (ns, s1, s2)"
    and feas: "\<not> infeasible (get_nkl cfg)"
  obtains a b e where "a + b + e = p + q"
    "(p + q) div 3 \<le> a" "a \<le> (p + q) div 3 + 1"
    "(p + q) div 3 \<le> b" "b \<le> (p + q) div 3 + 1"
    "(p + q) div 3 \<le> e" "e \<le> (p + q) div 3 + 1"
    "a \<le> int (length (filter (\<lambda>ci. outcome s1 s2 ns ci = heavy_side sg) c))"
    "b \<le> int (length (filter (\<lambda>ci. outcome s1 s2 ns ci = light_side sg) c))"
    "e \<le> int (length (filter (\<lambda>ci. outcome s1 s2 ns ci = C_EQUAL) c))"
    "int (length s1) = ns" "int (length s2) = ns"
proof -
  let ?M = "sel cfg C_MORE" and ?L = "sel cfg C_LESS" and ?E = "sel cfg C_EQUAL"
  obtain n1 n2 k l where g: "get_nkl cfg = (n1, n2, k, l)"
    and n1: "0 \<le> n1" "n1 \<le> p" and l: "l = - 1 \<or> l = 0 \<or> l = 1 \<or> l = 2"
    and ha: "(p + q) div 3 \<le> n1 + k" "n1 + k \<le> (p + q) div 3 + 1"
    and hb: "(p + q) div 3 \<le> p - n1 + n2" "p - n1 + n2 \<le> (p + q) div 3 + 1"
    and he: "(p + q) div 3 \<le> q - n2 - k" "q - n2 - k \<le> (p + q) div 3 + 1"
    and k: "k = 2 * n1 + n2 - p - l"
    unfolding p_def q_def by (rule get_nkl_closed[of cfg]) blast
  have n2: "0 \<le> n2" and k0: "0 \<le> k" using feas by (simp_all add: g infeasible_def)
  have p0: "0 \<le> p" and q0: "0 \<le> q" by (simp_all add: p_def q_def size_of_def)
  have t0: "0 \<le> (p + q) div 3" using p0 q0 by simp
  have e0: "0 \<le> q - n2 - k" using he(1) t0 by linarith
  note fb = fill_B_Inr[OF f[unfolded g] n1(1) n1(2)[unfolded p_def]]
  define A1 where "A1 = take (nat n1) ?M"
  define B1 where "B1 = drop (nat n1) ?M"
  define A2 where "A2 = take (nat n2) ?L"
  define B2 where "B2 = take (nat k) (drop (nat n2) ?L)"
  define R where "R = drop (nat k) (drop (nat n2) ?L)"
  define A3 where "A3 = (if l < 0 then take 1 ?E else [])"
  define B3 where "B3 = take (nat l) ?E"
  have M: "A1 @ B1 = ?M" by (simp add: A1_def B1_def)
  have "B2 @ R = drop (nat n2) ?L" unfolding B2_def R_def by (rule append_take_drop_id)
  then have L: "A2 @ B2 @ R = ?L" unfolding A2_def by (simp only: append_take_drop_id)
  have len: "int (length A1) = n1" "int (length B1) = p - n1" "int (length A2) = n2"
    "int (length B2) = k" "int (length R) = q - n2 - k"
    using n1 n2 k0 e0 by (simp_all add: A1_def B1_def A2_def B2_def R_def p_def q_def size_of_def)
  have ls1: "int (length s1) = ns" using fb(3,4) n2 l by auto
  have ls2: "int (length s2) = ns" using fb(3,5) n2 k0 l k by (auto simp: p_def)
  have "take (nat ns) s1 = s1" using ls1 by simp
  also have "s1 = A1 @ A2 @ A3" unfolding A1_def A2_def A3_def by (rule fb(1))
  finally have t1: "take (nat ns) s1 = A1 @ A2 @ A3" .
  have "take (nat ns) s2 = s2" using ls2 by simp
  also have "s2 = B1 @ B2 @ B3" unfolding B1_def B2_def B3_def by (rule fb(2))
  finally have t2: "take (nat ns) s2 = B1 @ B2 @ B3" .
  have d: "distinct (A1 @ B1 @ A2 @ B2 @ R)"
    using dist M L by (metis append_assoc)
  have sML: "set (A1 @ B1 @ A2 @ B2 @ R) = set (?M @ ?L)"
    using M L by (metis append_assoc)
  have "set A3 \<subseteq> set ?E" "set B3 \<subseteq> set ?E"
    by (auto simp: A3_def B3_def dest: in_set_takeD)
  then have e: "(set A3 \<union> set B3) \<inter> set (A1 @ B1 @ A2 @ B2 @ R) = {}"
    using eq unfolding sML by blast
  have m: "\<forall>x\<in>set (A1 @ B1). 0 \<le> x \<and> sg * (x + 1) \<in> set c" using more unfolding M .
  have ll: "\<forall>x\<in>set (A2 @ B2 @ R). 0 \<le> x \<and> - sg * (x + 1) \<in> set c" using less unfolding L .
  note lb = pans_lower_bounds[OF sg d e m ll t1 t2]
  show thesis
  proof (rule that[of "n1 + k" "p - n1 + n2" "q - n2 - k"])
    show "n1 + k + (p - n1 + n2) + (q - n2 - k) = p + q" by simp
    show "n1 + k \<le> int (length (filter (\<lambda>ci. outcome s1 s2 ns ci = heavy_side sg) c))"
      using lb(1) len by linarith
    show "p - n1 + n2 \<le> int (length (filter (\<lambda>ci. outcome s1 s2 ns ci = light_side sg) c))"
      using lb(2) len by linarith
    show "q - n2 - k \<le> int (length (filter (\<lambda>ci. outcome s1 s2 ns ci = C_EQUAL) c))"
      using lb(3) len by linarith
  qed (use ha hb he ls1 ls2 in simp_all)
qed

section \<open>Facts about the groups of a configuration\<close>

lemma coin_hyp_iff: "coin_hyp k ci \<longleftrightarrow> ci \<noteq> 0 \<and> k = \<bar>ci\<bar> - 1"
  by (auto simp: coin_hyp_def)

lemma distinct_sel_get_cfg: "distinct (sel (get_cfg c n) t)"
  by (simp add: sel_get_cfg)

lemma sel_get_cfg_disjoint:
  "t \<noteq> t' \<Longrightarrow> set (sel (get_cfg c n) t) \<inter> set (sel (get_cfg c n) t') = {}"
  by (auto simp: sel_get_cfg)

lemma sel_get_cfg_nonneg: "k \<in> set (sel (get_cfg c n) t) \<Longrightarrow> 0 \<le> k \<and> k < n \<and> ctype c k = t"
  by (auto simp: sel_get_cfg)

lemma ctype_MORE: "ctype c k = C_MORE \<Longrightarrow> k + 1 \<in> set c"
proof -
  assume a: "ctype c k = C_MORE"
  let ?f = "filter (coin_hyp k) c"
  from a have ne: "?f \<noteq> []" and pos: "last ?f > 0"
    by (auto simp: ctype_eq split: if_splits)
  from ne have "last ?f \<in> set ?f" by (rule last_in_set)
  then have "last ?f \<in> set c" "coin_hyp k (last ?f)" by auto
  with pos have "last ?f = k + 1" by (auto simp: coin_hyp_def)
  with \<open>last ?f \<in> set c\<close> show ?thesis by simp
qed

lemma ctype_LESS: "ctype c k = C_LESS \<Longrightarrow> - (k + 1) \<in> set c"
proof -
  assume a: "ctype c k = C_LESS"
  let ?f = "filter (coin_hyp k) c"
  from a have ne: "?f \<noteq> []" and pos: "\<not> last ?f > 0"
    by (auto simp: ctype_eq split: if_splits)
  from ne have "last ?f \<in> set ?f" by (rule last_in_set)
  then have "last ?f \<in> set c" "coin_hyp k (last ?f)" by auto
  with pos have "last ?f = - (k + 1)" by (auto simp: coin_hyp_def)
  with \<open>last ?f \<in> set c\<close> show ?thesis by simp
qed

lemma ctype_DOUBLE: "ctype c k = C_DOUBLE \<Longrightarrow> \<exists>ci\<in>set c. coin_hyp k ci"
proof -
  assume a: "ctype c k = C_DOUBLE"
  then have "length (filter (coin_hyp k) c) = 2" by (auto simp: ctype_eq split: if_splits)
  then have "filter (coin_hyp k) c \<noteq> []" by auto
  then show ?thesis by (auto simp: filter_empty_conv)
qed

lemma weigh_length_sum:
  "length (weigh c s1 s2 len C_MORE) + length (weigh c s1 s2 len C_EQUAL)
     + length (weigh c s1 s2 len C_LESS) = length c"
proof -
  have "size (mset (weigh c s1 s2 len C_MORE) + mset (weigh c s1 s2 len C_EQUAL)
      + mset (weigh c s1 s2 len C_LESS)) = size (mset c)"
    unfolding weigh_filter by (subst mset_three_way) (simp_all add: outcome_not_double)
  then show ?thesis by simp
qed

text \<open>Every outcome list is shorter than the set when two outcomes occur.\<close>

lemma weigh_shorter:
  assumes "x \<in> set c" "y \<in> set c" "outcome s1 s2 len x \<noteq> outcome s1 s2 len y"
  shows "length (weigh c s1 s2 len b) < length c"
proof -
  from assms obtain z where "z \<in> set c" "outcome s1 s2 len z \<noteq> b" by metis
  then show ?thesis unfolding weigh_filter by (intro length_filter_less) auto
qed

section \<open>A selection separates the possibility set\<close>

lemma get_sel_A_Inr:
  assumes "get_sel_A cfg = Inr (n, s1, s2)"
  shows "s1 = take (nat n) (sel cfg C_DOUBLE)"
    and "int (length s1) = max 0 n"
    and "s2 = take (nat n) (drop (nat n) (sel cfg C_DOUBLE))
         \<or> s2 = take (nat (n - 1)) (drop (nat n) (sel cfg C_DOUBLE)) @ take 1 (sel cfg C_EQUAL)"
proof -
  let ?D = "sel cfg C_DOUBLE"
  from assms obtain a where a: "read_range ?D 0 n = Inr a" "s1 = a"
    unfolding get_sel_A_def Let_def
    by (auto simp: bnd_Inr split: if_splits prod.splits)
  show "s1 = take (nat n) ?D" using read_range_Inr(1)[OF a(1)] a(2) by simp
  show "int (length s1) = max 0 n" using read_range_Inr(2)[OF a(1)] a(2) by simp
  from assms consider
      b where "read_range ?D n n = Inr b" "s2 = b"
    | b e where "read_range ?D n (n - 1) = Inr b" "read_range (sel cfg C_EQUAL) 0 1 = Inr e" "s2 = b @ e"
    unfolding get_sel_A_def Let_def
    by (auto simp: bnd_Inr split: if_splits prod.splits)
  then show "s2 = take (nat n) (drop (nat n) ?D)
         \<or> s2 = take (nat (n - 1)) (drop (nat n) ?D) @ take 1 (sel cfg C_EQUAL)"
  proof cases
    case 1
    then show ?thesis using read_range_Inr(1)[OF 1(1)] by simp
  next
    case 2
    then show ?thesis using read_range_Inr(1)[OF 2(1)] read_range_Inr(1)[OF 2(2)] by simp
  qed
qed

lemma sel_A_two_outcomes:
  assumes ae: "all_equal (get_cfg c nc) \<noteq> 0"
    and s: "get_sel_A (get_cfg c nc) = Inr (n, s1, s2)" and n: "0 < n"
  shows "\<exists>x\<in>set c. \<exists>y\<in>set c. outcome s1 s2 n x \<noteq> outcome s1 s2 n y"
proof -
  let ?cfg = "get_cfg c nc"
  let ?D = "sel ?cfg C_DOUBLE"
  note r = get_sel_A_Inr[OF s]
  have zero: "0 \<in> set c" using ae by (auto simp: all_equal_get_cfg split: if_splits)
  have len: "length s1 = nat n" using r(2) n by simp
  then have ne: "s1 \<noteq> []" using n by auto
  define d where "d = hd s1"
  have d1: "d \<in> set s1" using ne by (simp add: d_def)
  have t1: "take (nat n) s1 = s1" using len by simp
  have dD: "d \<in> set (take (nat n) ?D)" using d1 r(1) by simp
  then have dD': "d \<in> set ?D" by (rule in_set_takeD)
  have "d \<notin> set (drop (nat n) ?D)"
    using dD distinct_sel_get_cfg[of c nc C_DOUBLE] set_take_disj_set_drop_if_distinct[of ?D "nat n" "nat n"]
    by auto
  moreover have "d \<notin> set (sel ?cfg C_EQUAL)"
    using dD' sel_get_cfg_disjoint[of C_DOUBLE C_EQUAL c nc] by auto
  ultimately have d2: "d \<notin> set s2"
    using r(3) by (auto dest: in_set_takeD)
  then have d2': "d \<notin> set (take (nat n) s2)" by (auto dest: in_set_takeD)
  have "ctype c d = C_DOUBLE" using dD' sel_get_cfg_nonneg by blast
  then obtain x where x: "x \<in> set c" "coin_hyp d x" using ctype_DOUBLE by blast
  then have x': "x \<noteq> 0" "\<bar>x\<bar> - 1 = d" by (simp_all add: coin_hyp_iff)
  have "outcome s1 s2 n x = (if x > 0 then C_MORE else C_LESS)"
    using x' d1 d2' by (intro outcome_left) (simp_all add: t1)
  then have "outcome s1 s2 n x \<noteq> outcome s1 s2 n 0" by (simp add: outcome_zero)
  with x(1) zero show ?thesis by blast
qed

lemma sides_distinct:
  "heavy_side sg \<noteq> light_side sg" "heavy_side sg \<noteq> C_EQUAL" "light_side sg \<noteq> C_EQUAL"
  by (simp_all add: heavy_side_def light_side_def)

lemma filter_nonempty_length: "1 \<le> int (length (filter P c)) \<Longrightarrow> \<exists>x\<in>set c. P x"
proof -
  assume "1 \<le> int (length (filter P c))"
  then have "filter P c \<noteq> []" by auto
  then show ?thesis by (simp add: filter_empty_conv)
qed

lemma fill_B_two_outcomes:
  fixes cfg :: coin_cfg and c :: "int list"
  assumes sg: "sg = 1 \<or> sg = - 1"
    and dist: "distinct (sel cfg C_MORE @ sel cfg C_LESS)"
    and eq: "set (sel cfg C_EQUAL) \<inter> set (sel cfg C_MORE @ sel cfg C_LESS) = {}"
    and more: "\<forall>x\<in>set (sel cfg C_MORE). 0 \<le> x \<and> sg * (x + 1) \<in> set c"
    and less: "\<forall>x\<in>set (sel cfg C_LESS). 0 \<le> x \<and> - sg * (x + 1) \<in> set c"
    and f: "fill_B cfg (get_nkl cfg) = Inr (ns, s1, s2)"
    and feas: "\<not> infeasible (get_nkl cfg)"
    and two: "1 < size_of cfg C_MORE + size_of cfg C_LESS"
  shows "\<exists>x\<in>set c. \<exists>y\<in>set c. outcome s1 s2 ns x \<noteq> outcome s1 s2 ns y"
proof -
  obtain a b e where abe: "a + b + e = size_of cfg C_MORE + size_of cfg C_LESS"
    and bounds: "(size_of cfg C_MORE + size_of cfg C_LESS) div 3 \<le> a"
       "a \<le> (size_of cfg C_MORE + size_of cfg C_LESS) div 3 + 1"
       "(size_of cfg C_MORE + size_of cfg C_LESS) div 3 \<le> b"
       "b \<le> (size_of cfg C_MORE + size_of cfg C_LESS) div 3 + 1"
       "(size_of cfg C_MORE + size_of cfg C_LESS) div 3 \<le> e"
       "e \<le> (size_of cfg C_MORE + size_of cfg C_LESS) div 3 + 1"
    and la: "a \<le> int (length (filter (\<lambda>ci. outcome s1 s2 ns ci = heavy_side sg) c))"
    and lb: "b \<le> int (length (filter (\<lambda>ci. outcome s1 s2 ns ci = light_side sg) c))"
    and le: "e \<le> int (length (filter (\<lambda>ci. outcome s1 s2 ns ci = C_EQUAL) c))"
    by (rule fill_B_lower_bounds[OF sg dist eq more less f feas]) blast
  define t where "t = (size_of cfg C_MORE + size_of cfg C_LESS) div 3"
  have "(1 \<le> a \<and> 1 \<le> b) \<or> (1 \<le> a \<and> 1 \<le> e) \<or> (1 \<le> b \<and> 1 \<le> e)"
    using abe bounds two unfolding t_def[symmetric] by linarith
  then consider "1 \<le> a" "1 \<le> b" | "1 \<le> a" "1 \<le> e" | "1 \<le> b" "1 \<le> e" by blast
  then show ?thesis
  proof cases
    case 1
    obtain x y where "x \<in> set c" "outcome s1 s2 ns x = heavy_side sg"
      "y \<in> set c" "outcome s1 s2 ns y = light_side sg"
      using filter_nonempty_length[of "\<lambda>ci. outcome s1 s2 ns ci = heavy_side sg" c]
        filter_nonempty_length[of "\<lambda>ci. outcome s1 s2 ns ci = light_side sg" c] 1 la lb
      by force
    then show ?thesis using sides_distinct(1)[of sg] by metis
  next
    case 2
    obtain x y where "x \<in> set c" "outcome s1 s2 ns x = heavy_side sg"
      "y \<in> set c" "outcome s1 s2 ns y = C_EQUAL"
      using filter_nonempty_length[of "\<lambda>ci. outcome s1 s2 ns ci = heavy_side sg" c]
        filter_nonempty_length[of "\<lambda>ci. outcome s1 s2 ns ci = C_EQUAL" c] 2 la le
      by force
    then show ?thesis using sides_distinct(2)[of sg] by metis
  next
    case 3
    obtain x y where "x \<in> set c" "outcome s1 s2 ns x = light_side sg"
      "y \<in> set c" "outcome s1 s2 ns y = C_EQUAL"
      using filter_nonempty_length[of "\<lambda>ci. outcome s1 s2 ns ci = light_side sg" c]
        filter_nonempty_length[of "\<lambda>ci. outcome s1 s2 ns ci = C_EQUAL" c] 3 lb le
      by force
    then show ?thesis using sides_distinct(3)[of sg] by metis
  qed
qed

section \<open>The adaptive search terminates\<close>

lemma switch_more_less_sel [simp]:
  "sel (switch_more_less cfg) C_MORE = sel cfg C_LESS"
  "sel (switch_more_less cfg) C_LESS = sel cfg C_MORE"
  "sel (switch_more_less cfg) C_EQUAL = sel cfg C_EQUAL"
  "sel (switch_more_less cfg) C_DOUBLE = sel cfg C_DOUBLE"
  "all_equal (switch_more_less cfg) = all_equal cfg"
  by (simp_all add: switch_more_less_def)

lemma switch_more_less_size [simp]:
  "size_of (switch_more_less cfg) C_MORE = size_of cfg C_LESS"
  "size_of (switch_more_less cfg) C_LESS = size_of cfg C_MORE"
  "size_of (switch_more_less cfg) C_EQUAL = size_of cfg C_EQUAL"
  "size_of (switch_more_less cfg) C_DOUBLE = size_of cfg C_DOUBLE"
  by (simp_all add: size_of_def)

lemma get_cfg_groups:
  "distinct (sel (get_cfg c nc) C_MORE @ sel (get_cfg c nc) C_LESS)"
  "distinct (sel (get_cfg c nc) C_LESS @ sel (get_cfg c nc) C_MORE)"
  "set (sel (get_cfg c nc) C_EQUAL) \<inter> set (sel (get_cfg c nc) C_MORE @ sel (get_cfg c nc) C_LESS) = {}"
  "set (sel (get_cfg c nc) C_EQUAL) \<inter> set (sel (get_cfg c nc) C_LESS @ sel (get_cfg c nc) C_MORE) = {}"
  "\<forall>x\<in>set (sel (get_cfg c nc) C_MORE). 0 \<le> x \<and> x + 1 \<in> set c"
  "\<forall>x\<in>set (sel (get_cfg c nc) C_LESS). 0 \<le> x \<and> - (x + 1) \<in> set c"
  using sel_get_cfg_disjoint[of C_MORE C_LESS c nc] sel_get_cfg_disjoint[of C_EQUAL C_MORE c nc]
    sel_get_cfg_disjoint[of C_EQUAL C_LESS c nc] distinct_sel_get_cfg[of c nc]
    sel_get_cfg_nonneg[of _ c nc] ctype_MORE[of c] ctype_LESS[of c]
  by (auto simp: Int_commute)

lemma sel_B_two_outcomes:
  assumes s: "get_sel_B (get_cfg c nc) = Inr (n, s1, s2)" and n: "0 < n"
    and two: "1 < size_of (get_cfg c nc) C_MORE + size_of (get_cfg c nc) C_LESS"
  shows "\<exists>x\<in>set c. \<exists>y\<in>set c. outcome s1 s2 n x \<noteq> outcome s1 s2 n y"
proof -
  let ?cfg = "get_cfg c nc"
  note g = get_cfg_groups[of c nc]
  show ?thesis
  proof (cases "infeasible (get_nkl ?cfg)")
    case False
    then have f: "fill_B ?cfg (get_nkl ?cfg) = Inr (n, s1, s2)"
      using s by (simp add: get_sel_B_def Let_def)
    show ?thesis
      by (rule fill_B_two_outcomes[where sg = 1 and cfg = ?cfg, OF _ g(1) g(3) _ _ f False two])
         (use g(5,6) in simp_all)
  next
    case True
    let ?cfg' = "switch_more_less ?cfg"
    from True s n have feas: "\<not> infeasible (get_nkl ?cfg')"
      by (auto simp: get_sel_B_def Let_def split: if_splits)
    with True s have f: "fill_B ?cfg' (get_nkl ?cfg') = Inr (n, s1, s2)"
      by (simp add: get_sel_B_def Let_def)
    show ?thesis
      by (rule fill_B_two_outcomes[where sg = "- 1" and cfg = ?cfg', OF _ _ _ _ _ f feas])
         (use g two in simp_all)
  qed
qed

lemma selection_two_outcomes:
  assumes np: "1 < num_pos (get_cfg c nc)"
    and s: "getselection (get_cfg c nc) = Inr (n, s1, s2)" and n: "0 < n"
  shows "\<exists>x\<in>set c. \<exists>y\<in>set c. outcome s1 s2 n x \<noteq> outcome s1 s2 n y"
proof -
  let ?cfg = "get_cfg c nc"
  from s consider
      (A) "all_equal ?cfg \<noteq> 0" "get_sel_A ?cfg = Inr (n, s1, s2)"
    | (B) "size_of ?cfg C_DOUBLE = 0" "all_equal ?cfg = 0" "get_sel_B ?cfg = Inr (n, s1, s2)"
    by (auto simp: getselection_def split: if_splits)
  then show ?thesis
  proof cases
    case A
    then show ?thesis using n by (intro sel_A_two_outcomes)
  next
    case B
    then have "1 < size_of ?cfg C_MORE + size_of ?cfg C_LESS"
      using np by (simp add: num_pos_def)
    then show ?thesis using B(3) n by (intro sel_B_two_outcomes)
  qed
qed

lemma selection_shorter:
  assumes "1 < num_pos (get_cfg c nc)"
    and "getselection (get_cfg c nc) = Inr (n, s1, s2)" and "0 < n"
  shows "length (weigh c s1 s2 n b) < length c"
  using selection_two_outcomes[OF assms] weigh_shorter by blast

lemma weigh_length_le: "length (weigh c s1 s2 len b) \<le> length c"
  by (simp add: weigh_filter)

lemma split_measure:
  "2 * length (weigh c s1 s2 k b) + 1
     < (if \<forall>b. length (weigh c s1 s2 k b) < length c then 2 * length c else 2 * length c + 2)"
proof (cases "\<forall>b. length (weigh c s1 s2 k b) < length c")
  case True
  then have l: "length (weigh c s1 s2 k b) < length c" by blast
  show ?thesis unfolding if_P[OF True] using l by linarith
next
  case False
  show ?thesis unfolding if_not_P[OF False] using weigh_length_le[of c s1 s2 k b] by linarith
qed

termination weigh_sequential
proof (relation "measure (\<lambda>x. case x of
            Inl (c, nc) \<Rightarrow> 2 * length c + 1
          | Inr (c, nc, s1, s2, k) \<Rightarrow>
              (if \<forall>b. length (weigh c s1 s2 k b) < length c then 2 * length c
               else 2 * length c + 2))", goal_cases)
  case 1
  then show ?case by simp
next
  case (2 c nc cfg r n_sel rest sl1 sl2)
  then have "\<forall>b. length (weigh c sl1 sl2 n_sel b) < length c"
    using selection_shorter[of c nc n_sel sl1 sl2] by simp
  then show ?case by simp
next
  case (3 c nc s1 s2 k cr)
  then show ?case using split_measure[of c s1 s2 k C_MORE] by simp
next
  case (4 c nc s1 s2 k cr r1)
  then show ?case using split_measure[of c s1 s2 k C_EQUAL] by simp
next
  case (5 c nc s1 s2 k cr r1 r2)
  then show ?case using split_measure[of c s1 s2 k C_LESS] by simp
qed

declare weigh_sequential.simps [simp del] split_selection.simps [simp del]

section \<open>The loops of the static strategy\<close>

lemma ipow_loop_eq: "ipow_loop x n r = r * x ^ nat n"
proof (induction x n r rule: ipow_loop.induct)
  case (1 x n r)
  show ?case
  proof (cases "n \<le> 0")
    case True
    then show ?thesis by (subst ipow_loop.simps) simp
  next
    case False
    then have "nat n = Suc (nat (n - 1))" by simp
    then show ?thesis using 1[OF False] False by (subst ipow_loop.simps) (simp add: mult.assoc)
  qed
qed

lemma ipow_eq: "ipow x n = x ^ nat n"
  by (simp add: ipow_def ipow_loop_eq)

lemma sdiv_2_nonneg': "0 \<le> (x::int) \<Longrightarrow> x sdiv 2 = x div 2"
  by (simp add: signed_divide_int_def sgn_if)

definition n_base_of :: "int \<Rightarrow> int" where
  "n_base_of k = (ipow 3 k - 1) sdiv 2 - 1"

lemma n_base_of_mono: "0 \<le> k \<Longrightarrow> n_base_of k < n_base_of (k + 1)"
proof -
  assume k: "0 \<le> k"
  have n: "nat (k + 1) = Suc (nat k)" using k by simp
  define y :: int where "y = 3 ^ nat k"
  have y1: "1 \<le> y" by (simp add: y_def)
  have "(3 * y - 1) div 2 = ((y - 1) + y * 2) div 2" by (simp add: algebra_simps)
  also have "\<dots> = y + (y - 1) div 2" by (rule div_mult_self1) simp
  finally have "(y - 1) div 2 < (3 * y - 1) div 2" using y1 by simp
  then show ?thesis using y1
    by (simp add: n_base_of_def ipow_eq n sdiv_2_nonneg' y_def[symmetric])
qed

lemma n_base_of_neg: "k < 0 \<Longrightarrow> n_base_of (k + 1) = n_base_of k"
  by (simp add: n_base_of_def ipow_eq)

termination find_base
proof (relation "measure (\<lambda>(n_coins, k, n). nat (n_coins - n_base_of k) + nat (1 - k))", goal_cases)
  case 1
  then show ?case by simp
next
  case (2 n_coins k n n_base n')
  then have lt: "n_base_of k < n_coins" by (simp add: n_base_of_def)
  show ?case
  proof (cases "0 \<le> k")
    case True
    then show ?thesis using n_base_of_mono[OF True] lt by simp
  next
    case False
    then show ?thesis using n_base_of_neg[of k] lt by simp
  qed
qed

declare find_base.simps [simp del]

section \<open>Evaluating the two solvers\<close>

text \<open>
  For evaluation the body of \<^verbatim>\<open>weigh_sequential\<close> is read as a test of the terminal
  case followed by the descent into the selection that \<^verbatim>\<open>getselection\<close> returned.
\<close>

definition descend :: "int list \<Rightarrow> int \<Rightarrow> error + int \<times> int list \<times> int list \<Rightarrow> error + int" where
  "descend c nc r =
     (case r of Inl e \<Rightarrow> Inl e
      | Inr (n_sel, sl1, sl2) \<Rightarrow>
          if n_sel > 0 then split_selection c nc sl1 sl2 n_sel else Inl SelectionError)"

lemma descend_code [code]:
  "descend c nc (Inl e) = Inl e"
  "descend c nc (Inr (n_sel, sl1, sl2)) =
     (if n_sel > 0 then split_selection c nc sl1 sl2 n_sel else Inl SelectionError)"
  by (simp_all add: descend_def)

lemma weigh_sequential_code [code]:
  "weigh_sequential c nc =
     (if num_pos (get_cfg c nc) \<le> 1 then Inr 0
      else descend c nc (getselection (get_cfg c nc)))"
  by (simp add: weigh_sequential.simps descend_def Let_def)

text \<open>
  Claim C3. For 12 coins the sequential solver returns depth 3, and the static solver
  returns 3 weighings as well (it returns, and without an error).
\<close>

theorem twelve_coins_depth_3:
  "weigh_sequential (new_coins 12) 12 = Inr 3 \<and> weigh_static 12 = Some (Inr 3)"
  by code_simp

text \<open>
  Claim C9 says that for 3 coins the sequential solver returns depth 1. It does not:
  the first weighing (coin 1 against coin 2) leaves two hypotheses when the left pan
  goes down, so a second weighing follows, and the depth is 2. (Seven hypotheses
  cannot be told apart by the three outcomes of one weighing.)
\<close>

theorem three_coins_depth_not_1:
  "weigh_sequential (new_coins 3) 3 \<noteq> Inr 1"
  by code_simp

text \<open>Claim C9, amended: for 3 coins the sequential solver returns depth 2.\<close>

theorem three_coins_depth_2:
  "weigh_sequential (new_coins 3) 3 = Inr 2"
  by code_simp

section \<open>The classifier counts the possibilities\<close>

definition weight :: "kind \<Rightarrow> int" where
  "weight t = (case t of C_EQUAL \<Rightarrow> 0 | C_MORE \<Rightarrow> 1 | C_LESS \<Rightarrow> 1 | C_DOUBLE \<Rightarrow> 2)"

lemma hits_le_2:
  assumes "distinct c"
  shows "length (filter (coin_hyp k) c) \<le> 2"
proof -
  have "set (filter (coin_hyp k) c) \<subseteq> {k + 1, - (k + 1)}"
    by (auto simp: coin_hyp_def)
  then have "card (set (filter (coin_hyp k) c)) \<le> card {k + 1, - (k + 1)}"
    by (intro card_mono) auto
  also have "\<dots> \<le> 2" by (simp add: card_insert_if)
  finally have "card (set (filter (coin_hyp k) c)) \<le> 2" .
  moreover have "card (set (filter (coin_hyp k) c)) = length (filter (coin_hyp k) c)"
    by (rule distinct_card) (simp add: assms)
  ultimately show ?thesis by simp
qed

lemma weight_ctype:
  assumes "distinct c"
  shows "weight (ctype c k) = int (length (filter (coin_hyp k) c))"
proof -
  let ?h = "length (filter (coin_hyp k) c)"
  have "?h = 0 \<or> ?h = 1 \<or> ?h = 2" using hits_le_2[OF assms, of k] by linarith
  then show ?thesis by (auto simp: ctype_eq weight_def)
qed

lemma sum_weight_groups:
  "sum_list (map (\<lambda>k. weight (f k)) ks) =
     int (length (filter (\<lambda>k. f k = C_LESS) ks)) + int (length (filter (\<lambda>k. f k = C_MORE) ks))
       + int (length (filter (\<lambda>k. f k = C_DOUBLE) ks)) * 2"
proof (induction ks)
  case Nil
  then show ?case by simp
next
  case (Cons k ks)
  then show ?case by (cases "f k") (simp_all add: weight_def)
qed

lemma sum_hits_one:
  assumes "- n \<le> a" "a \<le> n"
  shows "sum_list (map (\<lambda>k. if coin_hyp k a then 1 else 0) [0..n - 1]) = (if a \<noteq> 0 then 1 else (0::int))"
proof -
  have "sum_list (map (\<lambda>k. if coin_hyp k a then 1 else 0) [0..n - 1])
      = (\<Sum>k\<in>{0..n - 1}. if coin_hyp k a then 1 else (0::int))"
    by (simp add: sum_list_distinct_conv_sum_set)
  also have "\<dots> = (\<Sum>k\<in>{0..n - 1}. if k = \<bar>a\<bar> - 1 then (if a \<noteq> 0 then 1 else 0) else 0)"
    by (intro sum.cong) (auto simp: coin_hyp_iff)
  also have "\<dots> = (if \<bar>a\<bar> - 1 \<in> {0..n - 1} then (if a \<noteq> 0 then 1 else 0) else 0)"
    by (simp add: sum.delta)
  also have "\<dots> = (if a \<noteq> 0 then 1 else 0)" using assms by auto
  finally show ?thesis .
qed

lemma sum_hits:
  assumes "set c \<subseteq> {- n..n}"
  shows "sum_list (map (\<lambda>k. int (length (filter (coin_hyp k) c))) [0..n - 1])
           = int (length (filter (\<lambda>ci. ci \<noteq> 0) c))"
  using assms
proof (induction c)
  case Nil
  then show ?case by simp
next
  case (Cons a c)
  then have a: "- n \<le> a" "a \<le> n" and c: "set c \<subseteq> {- n..n}" by auto
  have "sum_list (map (\<lambda>k. int (length (filter (coin_hyp k) (a # c)))) [0..n - 1])
      = sum_list (map (\<lambda>k. (if coin_hyp k a then 1 else 0)
                            + int (length (filter (coin_hyp k) c))) [0..n - 1])"
    by (intro arg_cong[where f = sum_list] map_cong) auto
  also have "\<dots> = sum_list (map (\<lambda>k. if coin_hyp k a then 1 else 0) [0..n - 1])
      + sum_list (map (\<lambda>k. int (length (filter (coin_hyp k) c))) [0..n - 1])"
    by (simp add: sum_list_addf)
  also have "\<dots> = (if a \<noteq> 0 then 1 else 0) + int (length (filter (\<lambda>ci. ci \<noteq> 0) c))"
    using sum_hits_one[OF a] Cons.IH[OF c] by simp
  finally show ?case by simp
qed

lemma length_zero_split:
  assumes "distinct c"
  shows "int (length c) = int (length (filter (\<lambda>ci. ci \<noteq> 0) c)) + (if 0 \<in> set c then 1 else 0)"
proof -
  have "length c = length (filter (\<lambda>ci. ci \<noteq> 0) c) + length (filter (\<lambda>ci. \<not> ci \<noteq> 0) c)"
    by (rule sum_length_filter_compl[symmetric])
  moreover have "length (filter (\<lambda>ci. \<not> ci \<noteq> 0) c) = (if 0 \<in> set c then 1 else 0)"
  proof -
    have "set (filter (\<lambda>ci. \<not> ci \<noteq> 0) c) = (if 0 \<in> set c then {0} else {})" by auto
    then have "card (set (filter (\<lambda>ci. \<not> ci \<noteq> 0) c)) = (if 0 \<in> set c then 1 else 0)"
      by (simp only: card.empty card_1_singleton_iff split: if_splits) auto
    moreover have "card (set (filter (\<lambda>ci. \<not> ci \<noteq> 0) c)) = length (filter (\<lambda>ci. \<not> ci \<noteq> 0) c)"
      by (rule distinct_card) (simp add: assms)
    ultimately show ?thesis by simp
  qed
  ultimately show ?thesis by simp
qed

lemma num_pos_eq_length:
  assumes "distinct c" and "set c \<subseteq> {- n..n}" and "0 < n"
  shows "num_pos (get_cfg c n) = int (length c)"
proof -
  have "num_pos (get_cfg c n) =
      sum_list (map (\<lambda>k. weight (ctype c k)) [0..n - 1]) + (if 0 \<in> set c then 1 else 0)"
    using assms(3) by (simp add: num_pos_def size_of_def sel_get_cfg all_equal_get_cfg sum_weight_groups)
  also have "\<dots> = sum_list (map (\<lambda>k. int (length (filter (coin_hyp k) c))) [0..n - 1])
      + (if 0 \<in> set c then 1 else 0)"
    by (simp add: weight_ctype[OF assms(1)])
  also have "\<dots> = int (length c)"
    using sum_hits[OF assms(2)] length_zero_split[OF assms(1)] by simp
  finally show ?thesis .
qed

text \<open>
  Claim C10. For a possibility set \<open>c\<close> without duplicates inside of the universe
  \<open>{0, \<plusminus>1, ..., \<plusminus>n}\<close> of \<open>n \<ge> 1\<close> coins, the number of solutions \<^verbatim>\<open>num_pos\<close> of the
  classified configuration is the size \<^verbatim>\<open>npos\<close> of \<open>c\<close>; so the terminal test
  \<^verbatim>\<open>num_pos(cfg) <= 1\<close> of the search is the test \<^verbatim>\<open>npos(c) <= 1\<close>.
\<close>

theorem num_pos_is_npos:
  assumes "distinct c" and "set c \<subseteq> {- n..n}" and "0 < n"
  shows "num_pos (get_cfg c n) = npos c
       \<and> (num_pos (get_cfg c n) \<le> 1 \<longleftrightarrow> npos c \<le> 1)"
  using num_pos_eq_length[OF assms] by (simp add: npos_def)

theorem num_pos_is_npos_witness:
  "distinct [1, - 2 :: int] \<and> set [1, - 2] \<subseteq> {- 3..3 :: int} \<and> (0::int) < 3
   \<and> num_pos (get_cfg [1, - 2] 3) = npos [1, - 2]
   \<and> (num_pos (get_cfg [1, - 2] 3) \<le> 1) = (npos [1, - 2] \<le> 1)"
proof -
  have h: "distinct [1, - 2 :: int]" "set [1, - 2] \<subseteq> {- 3..3 :: int}" "(0::int) < 3" by simp_all
  show ?thesis using h num_pos_is_npos[OF h] by simp
qed

section \<open>The children of a node of the search\<close>

text \<open>
  Claim C4. At every node of the adaptive search that is not terminal
  (\<^verbatim>\<open>num_pos(cfg) > 1\<close>, and \<^verbatim>\<open>getselection\<close> returned a selection with \<^verbatim>\<open>n_sel > 0\<close>, so
  that \<^verbatim>\<open>split_selection\<close> is called) each of the three possibility sets that
  \<^verbatim>\<open>weigh\<close> produces is strictly smaller than the set of the node. This holds for every
  possibility set and every number of coins, in particular for the sets below
  \<^verbatim>\<open>new_coins(n_coins)\<close> with \<open>n_coins \<ge> 3\<close>. It is the fact by which the recursion of
  \<^verbatim>\<open>weigh_sequential\<close> and \<^verbatim>\<open>split_selection\<close> was shown to terminate above, so the
  search returns (a depth or an error) on every input.
\<close>

theorem search_children_smaller:
  assumes "1 < num_pos (get_cfg c nc)"
    and "getselection (get_cfg c nc) = Inr (n_sel, sl1, sl2)" and "0 < n_sel"
  shows "npos (weigh c sl1 sl2 n_sel C_MORE) < npos c
       \<and> npos (weigh c sl1 sl2 n_sel C_EQUAL) < npos c
       \<and> npos (weigh c sl1 sl2 n_sel C_LESS) < npos c"
  using selection_shorter[OF assms] by (simp add: npos_def)

theorem search_children_smaller_witness:
  "1 < num_pos (get_cfg (new_coins 4) 4)
   \<and> getselection (get_cfg (new_coins 4) 4) = Inr (1, [0], [1]) \<and> (0::int) < 1
   \<and> npos (weigh (new_coins 4) [0] [1] 1 C_MORE) < npos (new_coins 4)
   \<and> npos (weigh (new_coins 4) [0] [1] 1 C_EQUAL) < npos (new_coins 4)
   \<and> npos (weigh (new_coins 4) [0] [1] 1 C_LESS) < npos (new_coins 4)"
proof -
  have a: "1 < num_pos (get_cfg (new_coins 4) 4)" by code_simp
  have b: "getselection (get_cfg (new_coins 4) 4) = Inr (1, [0], [1])" by code_simp
  have c: "(0::int) < 1" by simp
  show ?thesis using a b search_children_smaller[OF a b c] by simp
qed

text \<open>The relation between a possibility set and its children in the search is well-founded.\<close>

definition child_rel :: "int \<Rightarrow> (int list \<times> int list) set" where
  "child_rel nc =
     {(c', c). 1 < num_pos (get_cfg c nc) \<and>
        (\<exists>n_sel sl1 sl2 b. getselection (get_cfg c nc) = Inr (n_sel, sl1, sl2) \<and> 0 < n_sel
           \<and> c' = weigh c sl1 sl2 n_sel b)}"

lemma wf_child_rel: "wf (child_rel nc)"
proof (rule wf_subset)
  show "wf (measure (length :: int list \<Rightarrow> nat))" by simp
  show "child_rel nc \<subseteq> measure length"
    using selection_shorter by (auto simp: child_rel_def)
qed

section \<open>The selection for a type A configuration\<close>

lemma sdiv_3_nonneg: "0 \<le> (x::int) \<Longrightarrow> x sdiv 3 = x div 3"
  by (simp add: signed_divide_int_def sgn_if)

text \<open>The pan size that \<^verbatim>\<open>get_sel_A\<close> chooses for \<open>m\<close> coins of type \<open>N+-\<close> and \<open>e\<close> of type \<open>N=\<close>.\<close>

definition pan_size_A :: "int \<Rightarrow> int \<Rightarrow> int" where
  "pan_size_A m e =
     (if m mod 3 = 0 then m div 3
      else if m mod 3 = 1 then (if 0 < e then (m + 2) div 3 else (m - 1) div 3)
      else (m + 1) div 3)"

text \<open>
  The result of \<^verbatim>\<open>get_sel_A\<close> in closed form. \<open>N+-\<close> has enough coins for both pans, so
  no read is out of bounds.
\<close>

lemma get_sel_A_closed:
  fixes cfg :: coin_cfg
  defines "m \<equiv> size_of cfg C_DOUBLE" and "e \<equiv> size_of cfg C_EQUAL"
  defines "n \<equiv> pan_size_A m e"
  shows "get_sel_A cfg =
           Inr (n, take (nat n) (sel cfg C_DOUBLE),
                if m mod 3 = 1 \<and> 0 < e
                then take (nat n - 1) (drop (nat n) (sel cfg C_DOUBLE)) @ [sel cfg C_EQUAL ! 0]
                else take (nat n) (drop (nat n) (sel cfg C_DOUBLE)))
         \<and> 0 \<le> n \<and> 2 * n - (if m mod 3 = 1 \<and> 0 < e then 1 else 0) \<le> m"
proof -
  let ?D = "sel cfg C_DOUBLE" and ?E = "sel cfg C_EQUAL"
  have m0: "0 \<le> m" and e0: "0 \<le> e" by (simp_all add: m_def e_def size_of_def)
  have lenD: "int (length ?D) = m" and lenE: "int (length ?E) = e"
    by (simp_all add: m_def e_def size_of_def)
  have m3: "m smod 3 = m mod 3" using m0 by (simp add: smod_nonneg)
  define j where "j = m div 3"
  have mj: "m = 3 * j + m mod 3" by (simp add: j_def)
  have j0: "0 \<le> j" using m0 by (simp add: j_def)
  have r3: "m mod 3 = 0 \<or> m mod 3 = 1 \<or> m mod 3 = 2" by presburger
  have E1: "read_range ?E 0 1 = Inr [?E ! 0]" if "0 < e"
  proof -
    from that lenE obtain x xs where "?E = x # xs" by (cases ?E) auto
    then show ?thesis by (simp add: read_range_def)
  qed
  from r3 consider (z) "m mod 3 = 0" | (o1) "m mod 3 = 1" "0 < e" | (o2) "m mod 3 = 1" "e = 0"
    | (t) "m mod 3 = 2"
    using e0 by fastforce
  then show ?thesis
  proof cases
    case z
    then have mm: "m = 3 * j" using mj by simp
    have n: "n = j" by (simp add: n_def pan_size_A_def z j_def)
    have d: "m sdiv 3 = j" using m0 by (simp add: sdiv_3_nonneg j_def)
    have b: "j \<le> m" "j + j \<le> m" using mm j0 by simp_all
    have "get_sel_A cfg = Inr (j, take (nat j) ?D, take (nat j) (drop (nat j) ?D))"
      unfolding get_sel_A_def m_def[symmetric] e_def[symmetric] Let_def m3
      using z j0 b lenD by (simp add: d read_range_def bnd_def)
    then show ?thesis using z n j0 mm by simp
  next
    case o1
    then have mm: "m = 3 * j + 1" using mj by simp
    have n: "n = j + 1" using o1 mm by (simp add: n_def pan_size_A_def)
    have d: "(m + 2) sdiv 3 = j + 1" using m0 mm by (simp add: sdiv_3_nonneg)
    have b: "j + 1 \<le> m" "j + 1 + j \<le> m" using mm j0 by simp_all
    have "get_sel_A cfg = Inr (j + 1, take (nat (j + 1)) ?D,
            take (nat j) (drop (nat (j + 1)) ?D) @ [?E ! 0])"
      unfolding get_sel_A_def m_def[symmetric] e_def[symmetric] Let_def m3
      using o1 j0 b lenD E1[OF o1(2)] by (simp add: d read_range_def bnd_def)
    moreover have "nat (j + 1) - 1 = nat j" using j0 by simp
    ultimately show ?thesis using o1 n j0 mm by simp
  next
    case o2
    then have mm: "m = 3 * j + 1" using mj by simp
    have n: "n = j" using o2 mm by (simp add: n_def pan_size_A_def)
    have d: "(m - 1) sdiv 3 = j" using m0 mm by (simp add: sdiv_3_nonneg)
    have b: "j \<le> m" "j + j \<le> m" using mm j0 by simp_all
    have "get_sel_A cfg = Inr (j, take (nat j) ?D, take (nat j) (drop (nat j) ?D))"
      unfolding get_sel_A_def m_def[symmetric] e_def[symmetric] Let_def m3
      using o2 j0 b lenD by (simp add: d read_range_def bnd_def)
    then show ?thesis using o2 n j0 mm by simp
  next
    case t
    then have mm: "m = 3 * j + 2" using mj by simp
    have n: "n = j + 1" using t mm by (simp add: n_def pan_size_A_def)
    have d: "(m + 1) sdiv 3 = j + 1" using m0 mm by (simp add: sdiv_3_nonneg)
    have b: "j + 1 \<le> m" "j + 1 + (j + 1) \<le> m" using mm j0 by simp_all
    have "get_sel_A cfg = Inr (j + 1, take (nat (j + 1)) ?D, take (nat (j + 1)) (drop (nat (j + 1)) ?D))"
      unfolding get_sel_A_def m_def[symmetric] e_def[symmetric] Let_def m3
      using t j0 b lenD by (simp add: d read_range_def bnd_def)
    then show ?thesis using t n j0 mm by simp
  qed
qed

text \<open>
  Claim C6. For a configuration with \<open>m\<close> coins of type \<open>N+-\<close> and \<open>e\<close> coins of type
  \<open>N=\<close>, \<^verbatim>\<open>get_sel_A\<close> returns the pan size \<open>n\<close>: \<open>m / 3\<close> when \<open>m mod 3 = 0\<close>;
  \<open>(m + 2) / 3\<close> when \<open>m mod 3 = 1\<close> and \<open>e > 0\<close>, \<open>(m - 1) / 3\<close> when \<open>m mod 3 = 1\<close> and
  \<open>e = 0\<close>; \<open>(m + 1) / 3\<close> when \<open>m mod 3 = 2\<close>. The left pan is the first \<open>n\<close> coins of
  \<open>N+-\<close>. The right pan is the next \<open>n\<close> coins of \<open>N+-\<close>, except when \<open>m mod 3 = 1\<close> and
  \<open>e > 0\<close>: then it is the next \<open>n - 1\<close> coins of \<open>N+-\<close> followed by the first coin of
  \<open>N=\<close>, and in no other case a coin of \<open>N=\<close> is used. The last line says that \<open>N+-\<close> has
  enough coins, so both pans hold exactly \<open>n\<close> coins and no read is out of bounds.
\<close>

theorem get_sel_A_pans:
  fixes cfg :: coin_cfg
  defines "m \<equiv> size_of cfg C_DOUBLE" and "e \<equiv> size_of cfg C_EQUAL"
  defines "n \<equiv> pan_size_A m e"
  shows "get_sel_A cfg =
           Inr (n, take (nat n) (sel cfg C_DOUBLE),
                if m mod 3 = 1 \<and> 0 < e
                then take (nat n - 1) (drop (nat n) (sel cfg C_DOUBLE)) @ [sel cfg C_EQUAL ! 0]
                else take (nat n) (drop (nat n) (sel cfg C_DOUBLE)))
         \<and> 0 \<le> n \<and> 2 * n - (if m mod 3 = 1 \<and> 0 < e then 1 else 0) \<le> m"
  unfolding m_def e_def n_def by (rule get_sel_A_closed)

section \<open>The retry of the type B selection\<close>

text \<open>
  After \<^verbatim>\<open>switch_more_less\<close> the numbers are feasible: the branch of \<^verbatim>\<open>get_sel_B\<close> that
  returns 0 is never taken for a configuration (whose sizes are not negative).
\<close>

lemma retry_feasible:
  assumes "infeasible (get_nkl cfg)"
  shows "\<not> infeasible (get_nkl (switch_more_less cfg))"
proof
  assume inf': "infeasible (get_nkl (switch_more_less cfg))"
  let ?p = "size_of cfg C_MORE" and ?q = "size_of cfg C_LESS"
  let ?t = "(?p + ?q) div 3"
  have p0: "0 \<le> ?p" and q0: "0 \<le> ?q" by (simp_all add: size_of_def)
  obtain n1 n2 k l where g: "get_nkl cfg = (n1, n2, k, l)"
    and a: "infeasible (n1, n2, k, l) \<longrightarrow> 2 * ?t + 1 \<le> ?p"
       "infeasible (n1, n2, k, l) \<and> (?p + ?q) mod 3 \<noteq> 0 \<longrightarrow> 2 * ?t + 2 \<le> ?p"
    by (rule get_nkl_closed[of cfg], rule that, assumption+)
  obtain n1' n2' k' l' where g': "get_nkl (switch_more_less cfg) = (n1', n2', k', l')"
    and b: "infeasible (n1', n2', k', l') \<longrightarrow> 2 * ((?q + ?p) div 3) + 1 \<le> ?q"
       "infeasible (n1', n2', k', l') \<and> (?q + ?p) mod 3 \<noteq> 0 \<longrightarrow> 2 * ((?q + ?p) div 3) + 2 \<le> ?q"
    by (rule get_nkl_closed[of "switch_more_less cfg", unfolded switch_more_less_size], rule that, assumption+)
  have c: "?q + ?p = ?p + ?q" by simp
  have 1: "2 * ?t + 1 \<le> ?p" "(?p + ?q) mod 3 \<noteq> 0 \<Longrightarrow> 2 * ?t + 2 \<le> ?p"
    using a assms g by auto
  have 2: "2 * ?t + 1 \<le> ?q" "(?p + ?q) mod 3 \<noteq> 0 \<Longrightarrow> 2 * ?t + 2 \<le> ?q"
    using b inf' g' unfolding c by auto
  have pq: "?p + ?q = 3 * ?t + (?p + ?q) mod 3" by simp
  have r: "(?p + ?q) mod 3 < 3" "0 \<le> (?p + ?q) mod 3" by simp_all
  have t0: "0 \<le> ?t" using p0 q0 by simp
  show False
  proof (cases "(?p + ?q) mod 3 = 0")
    case True
    then show ?thesis using 1(1) 2(1) pq t0 by linarith
  next
    case False
    then show ?thesis using 1(2)[OF False] 2(2)[OF False] pq r t0 by linarith
  qed
qed

lemma get_sel_B_fill:
  "get_sel_B cfg =
     (if infeasible (get_nkl cfg)
      then fill_B (switch_more_less cfg) (get_nkl (switch_more_less cfg))
      else fill_B cfg (get_nkl cfg))"
  using retry_feasible[of cfg] by (simp add: get_sel_B_def Let_def)

text \<open>
  The number of coins that \<^verbatim>\<open>get_sel_B\<close> reads from \<^verbatim>\<open>sel[C_EQUAL]\<close>: \<open>l\<close> coins for the
  right pan when \<open>l > 0\<close>, the first coin for the left pan when \<open>l < 0\<close>, where \<open>l\<close> belongs
  to the numbers that are used in the end (those of the exchanged configuration when
  the first ones are infeasible). \<^verbatim>\<open>get_sel_B\<close> does not compare it with
  \<^verbatim>\<open>size[C_EQUAL]\<close>.
\<close>

definition equal_needed :: "coin_cfg \<Rightarrow> int" where
  "equal_needed cfg =
     (case (if infeasible (get_nkl cfg) then get_nkl (switch_more_less cfg) else get_nkl cfg)
      of (n1, n2, k, l) \<Rightarrow> \<bar>l\<bar>)"

lemma fill_B_succeeds:
  assumes g: "get_nkl cfg = (n1, n2, k, l)" and feas: "\<not> infeasible (get_nkl cfg)"
    and e: "\<bar>l\<bar> \<le> size_of cfg C_EQUAL"
  shows "fill_B cfg (get_nkl cfg) =
           Inr (n1 + n2 + (if l < 0 then 1 else 0),
                take (nat n1) (sel cfg C_MORE) @ take (nat n2) (sel cfg C_LESS)
                  @ (if l < 0 then [sel cfg C_EQUAL ! 0] else []),
                drop (nat n1) (sel cfg C_MORE) @ take (nat k) (drop (nat n2) (sel cfg C_LESS))
                  @ take (nat l) (sel cfg C_EQUAL))"
proof -
  let ?p = "size_of cfg C_MORE" and ?q = "size_of cfg C_LESS"
  obtain n1' n2' k' l' where g': "get_nkl cfg = (n1', n2', k', l')"
    and n1': "0 \<le> n1'" "n1' \<le> ?p" and l': "l' = - 1 \<or> l' = 0 \<or> l' = 1 \<or> l' = 2"
    and he': "(?p + ?q) div 3 \<le> ?q - n2' - k'"
    by (rule get_nkl_closed[of cfg], rule that, assumption+)
  have eqs: "n1' = n1" "n2' = n2" "k' = k" "l' = l" using g g' by simp_all
  note n1 = n1'[unfolded eqs] and l = l'[unfolded eqs] and he = he'[unfolded eqs]
  have n2: "0 \<le> n2" and k: "0 \<le> k" using feas by (simp_all add: g infeasible_def)
  have t0: "0 \<le> (?p + ?q) div 3" by (simp add: size_of_def)
  have q: "n2 + k \<le> ?q" using he t0 by linarith
  have lenM: "int (length (sel cfg C_MORE)) = ?p" and lenL: "int (length (sel cfg C_LESS)) = ?q"
    by (simp_all add: size_of_def)
  have a1: "read_range (sel cfg C_MORE) 0 n1 = Inr (take (nat n1) (sel cfg C_MORE))"
    using n1 lenM by (simp add: read_range_def)
  have a2: "read_range (sel cfg C_LESS) 0 n2 = Inr (take (nat n2) (sel cfg C_LESS))"
    using n2 k q lenL by (simp add: read_range_def)
  have a3: "(if l < 0 then read_range (sel cfg C_EQUAL) 0 1 else Inr [])
              = Inr (if l < 0 then [sel cfg C_EQUAL ! 0] else [])"
  proof (cases "l < 0")
    case True
    then have "1 \<le> size_of cfg C_EQUAL" using e by linarith
    then obtain x xs where "sel cfg C_EQUAL = x # xs"
      by (cases "sel cfg C_EQUAL") (auto simp: size_of_def)
    then show ?thesis using True by (simp add: read_range_def)
  next
    case False
    then show ?thesis by simp
  qed
  have b1: "read_range (sel cfg C_MORE) n1 (?p - n1) = Inr (drop (nat n1) (sel cfg C_MORE))"
    using n1 lenM by (simp add: read_range_def)
  have b2: "read_range (sel cfg C_LESS) n2 k = Inr (take (nat k) (drop (nat n2) (sel cfg C_LESS)))"
    using n2 k q lenL by (simp add: read_range_def)
  have b3: "read_range (sel cfg C_EQUAL) 0 l = Inr (take (nat l) (sel cfg C_EQUAL))"
    using e by (simp add: read_range_def size_of_def)
  have j: "max 0 (?p - n1) = ?p - n1" using n1 by simp
  have neg: "(if l < 0 then - l else 0) = (if l < 0 then 1 else 0)" using l by auto
  show ?thesis
    unfolding g fill_B_def prod.case Let_def j
    by (simp add: a1 a2 a3 b1 b2 b3 bnd_def neg del: max.absorb1 max.absorb2 max.absorb3 max.absorb4)
qed


text \<open>The configuration whose numbers \<^verbatim>\<open>get_sel_B\<close> uses: after the exchange if one is made.\<close>

definition retried :: "coin_cfg \<Rightarrow> coin_cfg" where
  "retried cfg = (if infeasible (get_nkl cfg) then switch_more_less cfg else cfg)"

lemma retried_feasible: "\<not> infeasible (get_nkl (retried cfg))"
  using retry_feasible[of cfg] by (simp add: retried_def)

lemma get_sel_B_retried: "get_sel_B cfg = fill_B (retried cfg) (get_nkl (retried cfg))"
  by (simp add: get_sel_B_fill retried_def)

lemma equal_needed_retried:
  "get_nkl (retried cfg) = (n1, n2, k, l) \<Longrightarrow> equal_needed cfg = \<bar>l\<bar>"
  by (auto simp: equal_needed_def retried_def split: if_splits)

lemma retried_size [simp]:
  "size_of (retried cfg) C_EQUAL = size_of cfg C_EQUAL"
  "size_of (retried cfg) C_MORE + size_of (retried cfg) C_LESS = size_of cfg C_MORE + size_of cfg C_LESS"
  by (simp_all add: retried_def)

lemma get_sel_B_pans:
  assumes g: "get_nkl (retried cfg) = (n1, n2, k, l)"
    and e: "equal_needed cfg \<le> size_of cfg C_EQUAL"
  shows "get_sel_B cfg =
           Inr (n1 + n2 + (if l < 0 then 1 else 0),
                take (nat n1) (sel (retried cfg) C_MORE) @ take (nat n2) (sel (retried cfg) C_LESS)
                  @ (if l < 0 then [sel cfg C_EQUAL ! 0] else []),
                drop (nat n1) (sel (retried cfg) C_MORE)
                  @ take (nat k) (drop (nat n2) (sel (retried cfg) C_LESS))
                  @ take (nat l) (sel cfg C_EQUAL))"
proof -
  have e': "\<bar>l\<bar> \<le> size_of (retried cfg) C_EQUAL"
    using e equal_needed_retried[OF g] by simp
  have E: "sel (retried cfg) C_EQUAL = sel cfg C_EQUAL" by (simp add: retried_def)
  show ?thesis
    unfolding get_sel_B_retried fill_B_succeeds[OF g retried_feasible e'] E ..
qed

text \<open>A selection for two or more possibilities is not empty.\<close>

lemma type_B_pans_nonempty:
  assumes g: "get_nkl cfg = (n1, n2, k, l)" and feas: "\<not> infeasible (get_nkl cfg)"
    and two: "1 < size_of cfg C_MORE + size_of cfg C_LESS"
  shows "0 < n1 + n2 + (if l < 0 then 1 else (0::int))"
proof -
  let ?p = "size_of cfg C_MORE" and ?q = "size_of cfg C_LESS"
  obtain n1' n2' k' l' where g': "get_nkl cfg = (n1', n2', k', l')"
    and n1': "0 \<le> n1'" and l': "l' = - 1 \<or> l' = 0 \<or> l' = 1 \<or> l' = 2"
    and b: "(?p + ?q) div 3 \<le> n1' + k'" "(?p + ?q) div 3 \<le> ?p - n1' + n2'"
       "?q - n2' - k' \<le> (?p + ?q) div 3 + 1"
    and k': "k' = 2 * n1' + n2' - ?p - l'"
    by (rule get_nkl_closed[of cfg], rule that, assumption+)
  have eqs: "n1' = n1" "n2' = n2" "k' = k" "l' = l" using g g' by simp_all
  note n1 = n1'[unfolded eqs] and l = l'[unfolded eqs] and b = b[unfolded eqs] and k = k'[unfolded eqs]
  have n2: "0 \<le> n2" and k0: "0 \<le> k" using feas by (simp_all add: g infeasible_def)
  have p0: "0 \<le> ?p" by (simp add: size_of_def)
  show ?thesis
  proof (rule ccontr)
    assume "\<not> ?thesis"
    then have z: "n1 = 0" "n2 = 0" "0 \<le> l" using n1 n2 l by (auto split: if_splits)
    then have "k = - ?p - l" using k by simp
    then have "?p = 0" "k = 0" using k0 p0 z(3) by linarith+
    then show False using b z two by linarith
  qed
qed

section \<open>The split of a type B configuration is balanced\<close>

lemma balanced_from_lower_bounds:
  fixes a b e x y z t :: int
  assumes "a + b + e = x + y + z" "a \<le> x" "b \<le> y" "e \<le> z"
    "t \<le> a" "a \<le> t + 1" "t \<le> b" "b \<le> t + 1" "t \<le> e" "e \<le> t + 1"
  shows "\<bar>x - y\<bar> \<le> 1 \<and> \<bar>x - z\<bar> \<le> 1 \<and> \<bar>y - z\<bar> \<le> 1"
  using assms by linarith

lemma fill_B_balanced:
  fixes cfg :: coin_cfg and c :: "int list"
  assumes sg: "sg = 1 \<or> sg = - 1"
    and dist: "distinct (sel cfg C_MORE @ sel cfg C_LESS)"
    and eq: "set (sel cfg C_EQUAL) \<inter> set (sel cfg C_MORE @ sel cfg C_LESS) = {}"
    and more: "\<forall>x\<in>set (sel cfg C_MORE). 0 \<le> x \<and> sg * (x + 1) \<in> set c"
    and less: "\<forall>x\<in>set (sel cfg C_LESS). 0 \<le> x \<and> - sg * (x + 1) \<in> set c"
    and f: "fill_B cfg (get_nkl cfg) = Inr (ns, s1, s2)"
    and feas: "\<not> infeasible (get_nkl cfg)"
    and total: "int (length c) = size_of cfg C_MORE + size_of cfg C_LESS"
  shows "\<bar>npos (weigh c s1 s2 ns C_MORE) - npos (weigh c s1 s2 ns C_EQUAL)\<bar> \<le> 1
       \<and> \<bar>npos (weigh c s1 s2 ns C_MORE) - npos (weigh c s1 s2 ns C_LESS)\<bar> \<le> 1
       \<and> \<bar>npos (weigh c s1 s2 ns C_EQUAL) - npos (weigh c s1 s2 ns C_LESS)\<bar> \<le> 1"
proof -
  let ?t = "(size_of cfg C_MORE + size_of cfg C_LESS) div 3"
  let ?H = "int (length (filter (\<lambda>ci. outcome s1 s2 ns ci = heavy_side sg) c))"
  let ?L = "int (length (filter (\<lambda>ci. outcome s1 s2 ns ci = light_side sg) c))"
  let ?E = "int (length (filter (\<lambda>ci. outcome s1 s2 ns ci = C_EQUAL) c))"
  obtain a b e where abe: "a + b + e = size_of cfg C_MORE + size_of cfg C_LESS"
    and bounds: "?t \<le> a" "a \<le> ?t + 1" "?t \<le> b" "b \<le> ?t + 1" "?t \<le> e" "e \<le> ?t + 1"
    and la: "a \<le> ?H" and lb: "b \<le> ?L" and le: "e \<le> ?E"
    by (rule fill_B_lower_bounds[OF sg dist eq more less f feas]) blast
  have sum3: "npos (weigh c s1 s2 ns C_MORE) + npos (weigh c s1 s2 ns C_EQUAL)
      + npos (weigh c s1 s2 ns C_LESS) = int (length c)"
    using weigh_length_sum[of c s1 s2 ns] by (simp add: npos_def)
  have hl: "?H + ?L = npos (weigh c s1 s2 ns C_MORE) + npos (weigh c s1 s2 ns C_LESS)"
    using sg by (auto simp: heavy_side_def light_side_def npos_def weigh_filter)
  have ee: "?E = npos (weigh c s1 s2 ns C_EQUAL)" by (simp add: npos_def weigh_filter)
  have "a + b + e = ?H + ?L + ?E" using abe total sum3 hl ee by linarith
  then have b3: "\<bar>?H - ?L\<bar> \<le> 1 \<and> \<bar>?H - ?E\<bar> \<le> 1 \<and> \<bar>?L - ?E\<bar> \<le> 1"
    using la lb le bounds by (intro balanced_from_lower_bounds[where t = ?t and a = a and b = b and e = e]) 
  from sg show ?thesis
  proof
    assume "sg = 1"
    then show ?thesis using b3
      by (simp add: heavy_side_def light_side_def npos_def weigh_filter abs_minus_commute)
  next
    assume "sg = - 1"
    then show ?thesis using b3
      by (simp add: heavy_side_def light_side_def npos_def weigh_filter abs_minus_commute)
  qed
qed

text \<open>
  Claim C5 says that the three outcome sizes of a type B split sum up to
  \<open>p + q + e\<close> (plus 1 if all coins may be equal). The coins of \<open>N=\<close> stand for no
  hypothesis, so the sum is \<open>p + q\<close>: with \<open>c = {+1, -2}\<close> of 3 coins (\<open>p = q = e = 1\<close>) the
  selector weighs coin 3 against coin 1 and the outcome sizes are 0, 1 and 1.
\<close>

theorem type_B_sum_counterexample:
  "size_of (get_cfg [1, - 2] 3) C_DOUBLE = 0 \<and> all_equal (get_cfg [1, - 2] 3) = 0
   \<and> get_sel_B (get_cfg [1, - 2] 3) = Inr (1, [2], [0])
   \<and> npos (weigh [1, - 2] [2] [0] 1 C_MORE) + npos (weigh [1, - 2] [2] [0] 1 C_EQUAL)
        + npos (weigh [1, - 2] [2] [0] 1 C_LESS)
      \<noteq> size_of (get_cfg [1, - 2] 3) C_MORE + size_of (get_cfg [1, - 2] 3) C_LESS
        + size_of (get_cfg [1, - 2] 3) C_EQUAL + all_equal (get_cfg [1, - 2] 3)"
  by code_simp

text \<open>
  Claim C5, amended. Let \<open>c\<close> be a possibility set without duplicates inside of the
  universe of \<open>nc \<ge> 1\<close> coins whose configuration is of type B (no coin of type \<open>N+-\<close>,
  \<^verbatim>\<open>all_equal = 0\<close>), with \<open>p\<close> coins in \<open>N+\<close> and \<open>q\<close> in \<open>N-\<close>, and let \<open>N=\<close> hold at least
  the \<open>equal_needed\<close> coins that the selector takes from it. Then \<^verbatim>\<open>get_sel_B\<close> returns a
  selection, and the three outcome sizes of its weighing sum up to \<open>p + q\<close>, the size
  of \<open>c\<close>, and differ pairwise by at most 1.
\<close>

theorem type_B_split_balanced:
  assumes "distinct c" and "set c \<subseteq> {- nc..nc}" and "0 < nc"
    and "size_of (get_cfg c nc) C_DOUBLE = 0" and "all_equal (get_cfg c nc) = 0"
    and "equal_needed (get_cfg c nc) \<le> size_of (get_cfg c nc) C_EQUAL"
  shows "\<exists>ns s1 s2. get_sel_B (get_cfg c nc) = Inr (ns, s1, s2)
       \<and> npos (weigh c s1 s2 ns C_MORE) + npos (weigh c s1 s2 ns C_EQUAL)
           + npos (weigh c s1 s2 ns C_LESS)
         = size_of (get_cfg c nc) C_MORE + size_of (get_cfg c nc) C_LESS
       \<and> \<bar>npos (weigh c s1 s2 ns C_MORE) - npos (weigh c s1 s2 ns C_EQUAL)\<bar> \<le> 1
       \<and> \<bar>npos (weigh c s1 s2 ns C_MORE) - npos (weigh c s1 s2 ns C_LESS)\<bar> \<le> 1
       \<and> \<bar>npos (weigh c s1 s2 ns C_EQUAL) - npos (weigh c s1 s2 ns C_LESS)\<bar> \<le> 1"
proof -
  let ?cfg = "get_cfg c nc"
  obtain n1 n2 k l where g: "get_nkl (retried ?cfg) = (n1, n2, k, l)"
    by (cases "get_nkl (retried ?cfg)")
  from get_sel_B_pans[OF g assms(6)]
  obtain ns s1 s2 where s: "get_sel_B ?cfg = Inr (ns, s1, s2)" by blast
  note gg = get_cfg_groups[of c nc]
  have total: "int (length c) = size_of ?cfg C_MORE + size_of ?cfg C_LESS"
    using num_pos_eq_length[OF assms(1-3)] assms(4,5) by (simp add: num_pos_def)
  have sum3: "npos (weigh c s1 s2 ns C_MORE) + npos (weigh c s1 s2 ns C_EQUAL)
      + npos (weigh c s1 s2 ns C_LESS) = int (length c)"
    using weigh_length_sum[of c s1 s2 ns] by (simp add: npos_def)
  have bal: "\<bar>npos (weigh c s1 s2 ns C_MORE) - npos (weigh c s1 s2 ns C_EQUAL)\<bar> \<le> 1
       \<and> \<bar>npos (weigh c s1 s2 ns C_MORE) - npos (weigh c s1 s2 ns C_LESS)\<bar> \<le> 1
       \<and> \<bar>npos (weigh c s1 s2 ns C_EQUAL) - npos (weigh c s1 s2 ns C_LESS)\<bar> \<le> 1"
  proof (cases "infeasible (get_nkl ?cfg)")
    case False
    then have f: "fill_B ?cfg (get_nkl ?cfg) = Inr (ns, s1, s2)"
      using s by (simp add: get_sel_B_fill)
    show ?thesis
      by (rule fill_B_balanced[where sg = 1 and cfg = ?cfg, OF _ gg(1) gg(3) _ _ f False total])
         (use gg(5,6) in simp_all)
  next
    case True
    let ?cfg' = "switch_more_less ?cfg"
    have feas: "\<not> infeasible (get_nkl ?cfg')" using True by (rule retry_feasible)
    have f: "fill_B ?cfg' (get_nkl ?cfg') = Inr (ns, s1, s2)"
      using s True by (simp add: get_sel_B_fill)
    show ?thesis
      by (rule fill_B_balanced[where sg = "- 1" and cfg = ?cfg', OF _ _ _ _ _ f feas])
         (use gg total in simp_all)
  qed
  show ?thesis using s sum3 total bal by simp
qed

theorem type_B_split_balanced_witness:
  "distinct [1, - 2 :: int] \<and> set [1, - 2] \<subseteq> {- 3..3 :: int} \<and> (0::int) < 3
   \<and> size_of (get_cfg [1, - 2] 3) C_DOUBLE = 0 \<and> all_equal (get_cfg [1, - 2] 3) = 0
   \<and> equal_needed (get_cfg [1, - 2] 3) = 1 \<and> size_of (get_cfg [1, - 2] 3) C_EQUAL = 1
   \<and> get_sel_B (get_cfg [1, - 2] 3) = Inr (1, [2], [0])
   \<and> npos (weigh [1, - 2] [2] [0] 1 C_MORE) + npos (weigh [1, - 2] [2] [0] 1 C_EQUAL)
        + npos (weigh [1, - 2] [2] [0] 1 C_LESS)
      = size_of (get_cfg [1, - 2] 3) C_MORE + size_of (get_cfg [1, - 2] 3) C_LESS
   \<and> \<bar>npos (weigh [1, - 2] [2] [0] 1 C_MORE) - npos (weigh [1, - 2] [2] [0] 1 C_EQUAL)\<bar> \<le> 1
   \<and> \<bar>npos (weigh [1, - 2] [2] [0] 1 C_MORE) - npos (weigh [1, - 2] [2] [0] 1 C_LESS)\<bar> \<le> 1
   \<and> \<bar>npos (weigh [1, - 2] [2] [0] 1 C_EQUAL) - npos (weigh [1, - 2] [2] [0] 1 C_LESS)\<bar> \<le> 1"
proof -
  have h: "distinct [1, - 2 :: int]" "set [1, - 2] \<subseteq> {- 3..3 :: int}" "(0::int) < 3" by simp_all
  have t: "size_of (get_cfg [1, - 2] 3) C_DOUBLE = 0" "all_equal (get_cfg [1, - 2] 3) = 0"
    by code_simp+
  have n: "equal_needed (get_cfg [1, - 2] 3) = 1" "size_of (get_cfg [1, - 2] 3) C_EQUAL = 1"
    by code_simp+
  have e: "equal_needed (get_cfg [1, - 2] 3) \<le> size_of (get_cfg [1, - 2] 3) C_EQUAL"
    by (simp only: n)
  have s: "get_sel_B (get_cfg [1, - 2] 3) = Inr (1, [2], [0])" by code_simp
  show ?thesis using h t n s type_B_split_balanced[OF h t e] by simp
qed

section \<open>The selector of type B exchanges the groups and retries\<close>



section \<open>The search on the initial possibility set returns a depth\<close>

text \<open>
  The outcome of a hypothesis in terms of the pans: a heavy coin \<open>x > 0\<close> tips the scale
  to the side it lies on, a light coin \<open>x < 0\<close> to the other side.
\<close>

lemma outcome_MORE_iff:
  "outcome s1 s2 len x = C_MORE \<longleftrightarrow>
     (0 < x \<and> x - 1 \<in> set (take (nat len) s1) \<and> x - 1 \<notin> set (take (nat len) s2))
     \<or> (x < 0 \<and> - x - 1 \<in> set (take (nat len) s2) \<and> - x - 1 \<notin> set (take (nat len) s1))"
  by (auto simp add: outcome_def sum_sel_def sum_loop_eq balance_def sgn_if)

lemma outcome_LESS_iff:
  "outcome s1 s2 len x = C_LESS \<longleftrightarrow>
     (0 < x \<and> x - 1 \<in> set (take (nat len) s2) \<and> x - 1 \<notin> set (take (nat len) s1))
     \<or> (x < 0 \<and> - x - 1 \<in> set (take (nat len) s1) \<and> - x - 1 \<notin> set (take (nat len) s2))"
  by (auto simp add: outcome_def sum_sel_def sum_loop_eq balance_def sgn_if)

lemma outcome_EQUAL_neg:
  "outcome s1 s2 len (- x) = C_EQUAL \<longleftrightarrow> outcome s1 s2 len x = C_EQUAL"
  by (auto simp add: outcome_def sum_sel_def sum_loop_eq balance_def sgn_if split: if_splits)

text \<open>
  A possibility set of type A holds the hypothesis 0 and with a hypothesis its opposite;
  one of type B holds at most one hypothesis for a coin, and not 0.
\<close>

definition typeA :: "int list \<Rightarrow> bool" where
  "typeA c \<longleftrightarrow> distinct c \<and> 0 \<in> set c \<and> (\<forall>x\<in>set c. - x \<in> set c)"

definition typeB :: "int list \<Rightarrow> bool" where
  "typeB c \<longleftrightarrow> distinct c \<and> 0 \<notin> set c \<and> (\<forall>x\<in>set c. - x \<notin> set c)"

lemma weigh_typeB: "typeB c \<Longrightarrow> typeB (weigh c s1 s2 len b)"
  unfolding typeB_def weigh_filter by auto

lemma weigh_typeA_EQUAL: "typeA c \<Longrightarrow> typeA (weigh c s1 s2 len C_EQUAL)"
  unfolding typeA_def weigh_filter by (auto simp: outcome_zero outcome_EQUAL_neg)

lemma weigh_typeA_MORE: "distinct c \<Longrightarrow> typeB (weigh c s1 s2 len C_MORE)"
  unfolding typeB_def weigh_filter
  by (auto simp: outcome_zero[of s1 s2 len] outcome_MORE_iff)

lemma weigh_typeA_LESS: "distinct c \<Longrightarrow> typeB (weigh c s1 s2 len C_LESS)"
  unfolding typeB_def weigh_filter
  by (auto simp: outcome_zero[of s1 s2 len] outcome_LESS_iff)

lemma weigh_subset: "set (weigh c s1 s2 len b) \<subseteq> set c"
  unfolding weigh_filter by auto

lemma groups_sum_aux:
  "int (length (filter (\<lambda>k. f k = C_EQUAL) ks)) + int (length (filter (\<lambda>k. f k = C_MORE) ks))
     + int (length (filter (\<lambda>k. f k = C_LESS) ks)) + int (length (filter (\<lambda>k. f k = C_DOUBLE) ks))
   = int (length ks)"
proof (induction ks)
  case Nil
  show ?case by simp
next
  case (Cons k ks)
  show ?case using Cons.IH by (cases "f k") simp_all
qed

lemma sizes_sum:
  assumes "0 \<le> nc"
  shows "size_of (get_cfg c nc) C_EQUAL + size_of (get_cfg c nc) C_MORE
           + size_of (get_cfg c nc) C_LESS + size_of (get_cfg c nc) C_DOUBLE = nc"
  using groups_sum_aux[of "ctype c" "[0..nc - 1]"] assms
  by (simp add: size_of_def sel_get_cfg)

lemma hits_typeB:
  assumes "typeB c"
  shows "length (filter (coin_hyp k) c) \<le> 1"
proof (rule ccontr)
  assume "\<not> ?thesis"
  then obtain a b rest where xs: "filter (coin_hyp k) c = a # b # rest"
    by (cases "filter (coin_hyp k) c"; cases "tl (filter (coin_hyp k) c)") auto
  have d: "distinct (filter (coin_hyp k) c)" using assms by (simp add: typeB_def)
  have ab: "a \<noteq> b" using d unfolding xs by simp
  have "a \<in> set (filter (coin_hyp k) c)" "b \<in> set (filter (coin_hyp k) c)"
    unfolding xs by simp_all
  then have m: "a \<in> set c" "b \<in> set c" "coin_hyp k a" "coin_hyp k b" by simp_all
  then have "\<bar>a\<bar> = \<bar>b\<bar>" by (simp add: coin_hyp_iff)
  then have "a = - b" using ab by linarith
  then show False using assms m(1,2) by (auto simp: typeB_def)
qed

lemma typeB_no_double:
  assumes "typeB c"
  shows "ctype c k \<noteq> C_DOUBLE"
  using hits_typeB[OF assms, of k] by (simp add: ctype_eq)

lemma typeB_cfg:
  assumes "typeB c" and "set c \<subseteq> {- nc..nc}" and "0 < nc"
  shows "size_of (get_cfg c nc) C_DOUBLE = 0" and "all_equal (get_cfg c nc) = 0"
    and "size_of (get_cfg c nc) C_MORE + size_of (get_cfg c nc) C_LESS = int (length c)"
    and "size_of (get_cfg c nc) C_EQUAL = nc - int (length c)"
proof -
  show d: "size_of (get_cfg c nc) C_DOUBLE = 0"
    using typeB_no_double[OF assms(1)] by (simp add: size_of_def sel_get_cfg)
  show a: "all_equal (get_cfg c nc) = 0"
    using assms(1) by (simp add: all_equal_get_cfg typeB_def)
  have dc: "distinct c" using assms(1) by (simp add: typeB_def)
  show ml: "size_of (get_cfg c nc) C_MORE + size_of (get_cfg c nc) C_LESS = int (length c)"
    using num_pos_eq_length[OF dc assms(2,3)] d a by (simp add: num_pos_def)
  show "size_of (get_cfg c nc) C_EQUAL = nc - int (length c)"
    using sizes_sum[of nc c] assms(3) d ml by simp
qed

lemma hits_typeA:
  assumes "typeA c"
  shows "filter (coin_hyp k) c = [] \<or> length (filter (coin_hyp k) c) = 2"
proof (cases "filter (coin_hyp k) c = []")
  case True
  then show ?thesis by simp
next
  case False
  let ?xs = "filter (coin_hyp k) c"
  have dc: "distinct c" using assms by (simp add: typeA_def)
  from False obtain x where "x \<in> set ?xs" by (cases ?xs) auto
  then have x: "x \<in> set c" "coin_hyp k x" by simp_all
  then have "- x \<in> set c" "coin_hyp k (- x)" using assms by (auto simp: typeA_def coin_hyp_iff)
  then have "{x, - x} \<subseteq> set ?xs" using x by simp
  moreover have "x \<noteq> - x" using x(2) by (simp add: coin_hyp_iff)
  ultimately have "2 \<le> card (set ?xs)"
    using card_mono[of "set ?xs" "{x, - x}"] by simp
  also have "\<dots> \<le> length ?xs" by (rule card_length)
  finally show ?thesis using hits_le_2[OF dc, of k] by simp
qed

lemma typeA_ctype:
  assumes "typeA c"
  shows "ctype c k = C_EQUAL \<or> ctype c k = C_DOUBLE"
  using hits_typeA[OF assms, of k] by (auto simp: ctype_eq)

lemma typeA_cfg:
  assumes "typeA c" and "set c \<subseteq> {- nc..nc}" and "0 < nc"
  shows "size_of (get_cfg c nc) C_MORE = 0" and "size_of (get_cfg c nc) C_LESS = 0"
    and "all_equal (get_cfg c nc) = 1"
    and "2 * size_of (get_cfg c nc) C_DOUBLE + 1 = int (length c)"
    and "size_of (get_cfg c nc) C_EQUAL + size_of (get_cfg c nc) C_DOUBLE = nc"
proof -
  have t: "ctype c k \<noteq> C_MORE" "ctype c k \<noteq> C_LESS" for k
    using typeA_ctype[OF assms(1), of k] by auto
  show m: "size_of (get_cfg c nc) C_MORE = 0"
    using t(1) by (simp add: size_of_def sel_get_cfg)
  show l: "size_of (get_cfg c nc) C_LESS = 0"
    using t(2) by (simp add: size_of_def sel_get_cfg)
  show a: "all_equal (get_cfg c nc) = 1"
    using assms(1,3) by (simp add: all_equal_get_cfg typeA_def)
  have dc: "distinct c" using assms(1) by (simp add: typeA_def)
  show "2 * size_of (get_cfg c nc) C_DOUBLE + 1 = int (length c)"
    using num_pos_eq_length[OF dc assms(2,3)] m l a by (simp add: num_pos_def)
  show "size_of (get_cfg c nc) C_EQUAL + size_of (get_cfg c nc) C_DOUBLE = nc"
    using sizes_sum[of nc c] assms(3) m l by simp
qed

lemma get_nkl_l:
  assumes "get_nkl cfg = (n1, n2, k, l)"
  shows "\<bar>l\<bar> \<le> (if (size_of cfg C_MORE + size_of cfg C_LESS) mod 3 = 0 then 2 else 1)"
proof -
  have nn: "0 \<le> size_of cfg C_MORE + size_of cfg C_LESS" by (simp add: size_of_def)
  have sm: "(size_of cfg C_MORE + size_of cfg C_LESS) smod 3
            = (size_of cfg C_MORE + size_of cfg C_LESS) mod 3"
    using nn by (simp add: smod_nonneg)
  show ?thesis
    using assms unfolding get_nkl_def Let_def sm
    by (auto split: if_splits)
qed

lemma equal_needed_bound:
  "equal_needed cfg \<le> (if (size_of cfg C_MORE + size_of cfg C_LESS) mod 3 = 0 then 2 else 1)"
proof -
  obtain n1 n2 k l where g: "get_nkl (retried cfg) = (n1, n2, k, l)"
    by (cases "get_nkl (retried cfg)")
  show ?thesis
    using get_nkl_l[OF g] equal_needed_retried[OF g] by (simp only: retried_size)
qed

text \<open>
  A possibility set \<open>c\<close> of the universe of \<open>nc\<close> coins has enough coins outside: the coins
  without a hypothesis are those of type \<open>N=\<close>, and \<^verbatim>\<open>get_sel_B\<close> takes up to two of them.
\<close>

definition enough_equal :: "int \<Rightarrow> int list \<Rightarrow> bool" where
  "enough_equal nc c \<longleftrightarrow>
     length c < 2 \<or> (if int (length c) mod 3 = 0 then 2 else 1) \<le> nc - int (length c)"

lemma split_selection_Inr:
  assumes "weigh_sequential (weigh c s1 s2 k C_MORE) nc = Inr r1"
    and "weigh_sequential (weigh c s1 s2 k C_EQUAL) nc = Inr r2"
    and "weigh_sequential (weigh c s1 s2 k C_LESS) nc = Inr r3"
  shows "split_selection c nc s1 s2 k = Inr (1 + max3 r1 r2 r3)"
  by (subst split_selection.simps) (simp add: Let_def bnd_def assms)

lemma typeB_selection:
  assumes B: "typeB c" and sub: "set c \<subseteq> {- nc..nc}" and nc: "0 < nc"
    and two: "2 \<le> length c" and en: "enough_equal nc c"
  shows "\<exists>ns s1 s2. getselection (get_cfg c nc) = Inr (ns, s1, s2) \<and> 0 < ns"
proof -
  let ?cfg = "get_cfg c nc"
  note cf = typeB_cfg[OF B sub nc]
  have "equal_needed ?cfg \<le> (if int (length c) mod 3 = 0 then 2 else 1)"
    using equal_needed_bound[of ?cfg] by (simp only: cf(3))
  also have "\<dots> \<le> size_of ?cfg C_EQUAL"
    using en two unfolding enough_equal_def cf(4) by simp
  finally have e: "equal_needed ?cfg \<le> size_of ?cfg C_EQUAL" .
  obtain n1 n2 k l where g: "get_nkl (retried ?cfg) = (n1, n2, k, l)"
    by (cases "get_nkl (retried ?cfg)")
  have t: "1 < size_of (retried ?cfg) C_MORE + size_of (retried ?cfg) C_LESS"
    using two cf(3) by simp
  have p: "0 < n1 + n2 + (if l < 0 then 1 else (0::int))"
    by (rule type_B_pans_nonempty[OF g retried_feasible t])
  have "getselection ?cfg = get_sel_B ?cfg" using cf(1,2) by (simp add: getselection_def)
  then show ?thesis using get_sel_B_pans[OF g e] p by simp
qed

lemma typeB_total:
  "typeB c \<Longrightarrow> set c \<subseteq> {- nc..nc} \<Longrightarrow> 0 < nc \<Longrightarrow> enough_equal nc c
     \<Longrightarrow> \<exists>d. weigh_sequential c nc = Inr d"
proof (induction "length c" arbitrary: c rule: less_induct)
  case less
  let ?cfg = "get_cfg c nc"
  note cf = typeB_cfg[OF less.prems(1,2,3)]
  have np: "num_pos ?cfg = int (length c)" using cf by (simp add: num_pos_def)
  show ?case
  proof (cases "num_pos ?cfg \<le> 1")
    case True
    then show ?thesis by (simp add: weigh_sequential_code)
  next
    case False
    then have two: "2 \<le> length c" using np by simp
    obtain ns s1 s2 where s: "getselection ?cfg = Inr (ns, s1, s2)" "0 < ns"
      using typeB_selection[OF less.prems(1,2,3) two less.prems(4)] by blast
    have one: "1 < num_pos ?cfg" using False by simp
    have lenc: "int (length c) \<le> nc - 1"
      using less.prems(4) two unfolding enough_equal_def by (simp split: if_splits)
    have child: "\<exists>d. weigh_sequential (weigh c s1 s2 ns b) nc = Inr d" for b
    proof -
      let ?c' = "weigh c s1 s2 ns b"
      have sh: "length ?c' < length c" by (rule selection_shorter[OF one s])
      have B': "typeB ?c'" by (rule weigh_typeB[OF less.prems(1)])
      have sub': "set ?c' \<subseteq> {- nc..nc}" using weigh_subset[of c s1 s2 ns b] less.prems(2) by blast
      have "int (length ?c') \<le> nc - 2" using sh lenc by simp
      then have en': "enough_equal nc ?c'" unfolding enough_equal_def by simp
      show ?thesis by (rule less.hyps[OF sh B' sub' less.prems(3) en'])
    qed
    obtain r1 r2 r3 where r: "weigh_sequential (weigh c s1 s2 ns C_MORE) nc = Inr r1"
      "weigh_sequential (weigh c s1 s2 ns C_EQUAL) nc = Inr r2"
      "weigh_sequential (weigh c s1 s2 ns C_LESS) nc = Inr r3"
      using child by blast
    have "weigh_sequential c nc = split_selection c nc s1 s2 ns"
      using False s by (simp add: weigh_sequential_code descend_code)
    then show ?thesis using split_selection_Inr[OF r] by simp
  qed
qed

text \<open>
  The pan size of type A for \<open>m \<ge> 1\<close> coins of type \<open>N+-\<close> among at least 3 coins: the pans
  are not empty, and the coins on the pans leave enough coins for the selections of
  type B below.
\<close>

lemma pan_size_A_bounds:
  fixes m e :: int
  assumes "1 \<le> m" and "0 \<le> e" and "3 \<le> m + e"
  defines "n \<equiv> pan_size_A m e"
  defines "u \<equiv> 2 * n - (if m mod 3 = 1 \<and> 0 < e then 1 else 0)"
  shows "0 < n" and "1 \<le> m + e - u" and "u mod 3 = 0 \<and> 2 \<le> u \<longrightarrow> 2 \<le> m + e - u"
proof -
  define j where "j = m div 3"
  have mj: "m = 3 * j + m mod 3" by (simp add: j_def)
  have j0: "0 \<le> j" using assms(1) by (simp add: j_def)
  have r3: "m mod 3 = 0 \<or> m mod 3 = 1 \<or> m mod 3 = 2" by presburger
  from r3 consider (z) "m mod 3 = 0" | (o1) "m mod 3 = 1" "0 < e" | (o2) "m mod 3 = 1" "e = 0"
    | (t) "m mod 3 = 2"
    using assms(2) by fastforce
  then have "0 < n \<and> 1 \<le> m + e - u \<and> (u mod 3 = 0 \<and> 2 \<le> u \<longrightarrow> 2 \<le> m + e - u)"
  proof cases
    case z
    then have mm: "m = 3 * j" using mj by simp
    have n: "n = j" by (simp add: n_def pan_size_A_def z j_def)
    have u: "u = 2 * j" using z n by (simp add: u_def)
    have j1: "1 \<le> j" using mm assms(1) by simp
    have "u mod 3 = 0 \<longrightarrow> 3 \<le> j" unfolding u using j1 by presburger
    then show ?thesis using n u mm j1 assms(2) by auto
  next
    case o1
    then have mm: "m = 3 * j + 1" using mj by simp
    have n: "n = j + 1" using o1 mm by (simp add: n_def pan_size_A_def)
    have u: "u = 2 * j + 1" using o1 n by (simp add: u_def)
    have "u mod 3 = 0 \<longrightarrow> 1 \<le> j" unfolding u using j0 by presburger
    then show ?thesis using n u mm j0 o1(2) by auto
  next
    case o2
    then have mm: "m = 3 * j + 1" using mj by simp
    have n: "n = j" using o2 mm by (simp add: n_def pan_size_A_def)
    have u: "u = 2 * j" using o2 n by (simp add: u_def)
    have j1: "1 \<le> j" using mm assms(3) o2(2) by simp
    have "u mod 3 = 0 \<longrightarrow> 3 \<le> j" unfolding u using j1 by presburger
    then show ?thesis using n u mm j1 o2(2) by auto
  next
    case t
    then have mm: "m = 3 * j + 2" using mj by simp
    have n: "n = j + 1" using t mm by (simp add: n_def pan_size_A_def)
    have u: "u = 2 * j + 2" using t n by (simp add: u_def)
    have je: "1 \<le> j + e" using mm assms(2,3) j0 by linarith
    have "u mod 3 = 0 \<longrightarrow> 2 \<le> j" unfolding u using j0 by presburger
    then show ?thesis using n u mm j0 je assms(2) by auto
  qed
  then show "0 < n" and "1 \<le> m + e - u" and "u mod 3 = 0 \<and> 2 \<le> u \<longrightarrow> 2 \<le> m + e - u"
    by simp_all
qed

text \<open>
  The hypotheses of one tipped outcome belong to different coins on the pans, and a
  coin of type \<open>N=\<close> on a pan has no hypothesis.
\<close>

lemma tipped_child_bound:
  assumes dc: "distinct c"
    and b: "b = C_MORE \<or> b = C_LESS"
    and pans: "\<forall>k\<in>set (take (nat len) s1) \<union> set (take (nat len) s2).
                 k \<in> set T \<or> ctype c k = C_EQUAL"
  shows "length (weigh c s1 s2 len b) \<le> length T"
proof -
  let ?ch = "weigh c s1 s2 len b"
  let ?f = "\<lambda>x::int. \<bar>x\<bar> - 1"
  have B: "typeB ?ch" using b weigh_typeA_MORE[OF dc] weigh_typeA_LESS[OF dc] by auto
  have d: "distinct ?ch" using B by (simp add: typeB_def)
  have inj: "inj_on ?f (set ?ch)"
  proof (rule inj_onI)
    fix x y assume x: "x \<in> set ?ch" and y: "y \<in> set ?ch" and e: "\<bar>x\<bar> - 1 = \<bar>y\<bar> - 1"
    show "x = y"
    proof (rule ccontr)
      assume "x \<noteq> y"
      then have "x = - y" using e by linarith
      then show False using B x y by (auto simp: typeB_def)
    qed
  qed
  have img: "?f ` set ?ch \<subseteq> set T"
  proof
    fix k assume "k \<in> ?f ` set ?ch"
    then obtain x where x: "x \<in> set ?ch" "k = \<bar>x\<bar> - 1" by blast
    then have xc: "x \<in> set c" and o: "outcome s1 s2 len x = b" by (simp_all add: weigh_filter)
    have x0: "x \<noteq> 0" using o b outcome_zero[of s1 s2 len] by auto
    have "k \<in> set (take (nat len) s1) \<union> set (take (nat len) s2)"
      using o b x(2) by (auto simp: outcome_MORE_iff outcome_LESS_iff)
    then have "k \<in> set T \<or> ctype c k = C_EQUAL" by (rule bspec[OF pans])
    moreover have "ctype c k \<noteq> C_EQUAL"
    proof -
      have "filter (coin_hyp k) c \<noteq> []"
        using xc x0 x(2) by (auto simp: filter_empty_conv coin_hyp_iff)
      then show ?thesis by (simp add: ctype_eq)
    qed
    ultimately show "k \<in> set T" by simp
  qed
  have "length ?ch = card (set ?ch)" using d by (simp add: distinct_card)
  also have "\<dots> = card (?f ` set ?ch)" using inj by (simp add: card_image)
  also have "\<dots> \<le> card (set T)" by (rule card_mono[OF _ img]) simp
  also have "\<dots> \<le> length T" by (rule card_length)
  finally show ?thesis .
qed

lemma set_take_drop_subset: "set (take a (drop n xs)) \<subseteq> set (take (n + a) xs)"
  by (simp add: take_add)

lemma set_take_subset_add: "set (take n xs) \<subseteq> set (take (n + a) xs)"
  by (simp add: take_add)

lemma typeA_selection:
  assumes A: "typeA c" and sub: "set c \<subseteq> {- nc..nc}" and nc: "3 \<le> nc"
    and np: "1 < num_pos (get_cfg c nc)"
  shows "\<exists>n s1 s2. getselection (get_cfg c nc) = Inr (n, s1, s2) \<and> 0 < n
           \<and> enough_equal nc (weigh c s1 s2 n C_MORE)
           \<and> enough_equal nc (weigh c s1 s2 n C_LESS)"
proof -
  let ?cfg = "get_cfg c nc"
  let ?D = "sel ?cfg C_DOUBLE" and ?E = "sel ?cfg C_EQUAL"
  define m where "m = size_of ?cfg C_DOUBLE"
  define e where "e = size_of ?cfg C_EQUAL"
  define n where "n = pan_size_A m e"
  define l :: int where "l = (if m mod 3 = 1 \<and> 0 < e then 1 else 0)"
  define u where "u = 2 * n - l"
  have nc0: "0 < nc" using nc by simp
  note cf = typeA_cfg[OF A sub nc0]
  have dc: "distinct c" using A by (simp add: typeA_def)
  have m1: "1 \<le> m" using np cf by (simp add: num_pos_def m_def)
  have e0: "0 \<le> e" by (simp add: e_def size_of_def)
  have me: "m + e = nc" using cf(5) by (simp add: m_def e_def)
  have me3: "3 \<le> m + e" using nc me by simp
  note pb = pan_size_A_bounds[OF m1 e0 me3, folded n_def, folded l_def, folded u_def]
  define s1 where "s1 = take (nat n) ?D"
  define a where "a = (if l = 1 then nat n - 1 else nat n)"
  define s2 where "s2 = (if l = 1 then take (nat n - 1) (drop (nat n) ?D) @ [?E ! 0]
                          else take (nat n) (drop (nat n) ?D))"
  have sA: "get_sel_A ?cfg = Inr (n, s1, s2)"
    using get_sel_A_closed[of ?cfg] unfolding s1_def s2_def n_def m_def e_def l_def
    by (simp split: if_splits)
  have gs: "getselection ?cfg = Inr (n, s1, s2)"
    using cf(1,2,3) sA by (simp add: getselection_def)
  define T where "T = take (nat n + a) ?D"
  have ua: "int (nat n + a) = u"
    using pb(1) unfolding a_def u_def l_def by (simp split: if_splits)
  have "length T \<le> nat n + a" unfolding T_def by simp
  then have lenT: "int (length T) \<le> u" using ua by linarith
  have pans: "\<forall>k\<in>set (take (nat n) s1) \<union> set (take (nat n) s2). k \<in> set T \<or> ctype c k = C_EQUAL"
  proof
    fix k assume "k \<in> set (take (nat n) s1) \<union> set (take (nat n) s2)"
    then have "k \<in> set s1 \<or> k \<in> set s2" using in_set_takeD by fast
    then consider "k \<in> set s1" | "k \<in> set s2" by blast
    then show "k \<in> set T \<or> ctype c k = C_EQUAL"
    proof cases
      case 1
      then show ?thesis unfolding s1_def T_def using set_take_subset_add[of "nat n" ?D a] by blast
    next
      case 2
      show ?thesis
      proof (cases "l = 1")
        case False
        then have "k \<in> set (take a (drop (nat n) ?D))" using 2 by (simp add: s2_def a_def)
        then show ?thesis unfolding T_def using set_take_drop_subset[of a "nat n" ?D] by blast
      next
        case True
        then have "k \<in> set (take a (drop (nat n) ?D)) \<or> k = ?E ! 0"
          using 2 by (auto simp: s2_def a_def)
        moreover have "ctype c (?E ! 0) = C_EQUAL"
        proof -
          have "0 < e" using True by (simp add: l_def split: if_splits)
          then have "?E ! 0 \<in> set ?E" by (simp add: e_def size_of_def)
          then show ?thesis by (simp add: sel_get_cfg_nonneg)
        qed
        ultimately show ?thesis
          unfolding T_def using set_take_drop_subset[of a "nat n" ?D] by blast
      qed
    qed
  qed
  have en: "enough_equal nc (weigh c s1 s2 n b)" if b: "b = C_MORE \<or> b = C_LESS" for b
  proof -
    have "length (weigh c s1 s2 n b) \<le> length T" by (rule tipped_child_bound[OF dc b pans])
    then have s: "int (length (weigh c s1 s2 n b)) \<le> u" using lenT by simp
    show ?thesis
    proof (cases "int (length (weigh c s1 s2 n b)) = u")
      case True
      then show ?thesis using pb(2,3) me unfolding enough_equal_def by auto
    next
      case False
      then have "int (length (weigh c s1 s2 n b)) \<le> u - 1" using s by simp
      then show ?thesis using pb(2) me unfolding enough_equal_def by auto
    qed
  qed
  show ?thesis using gs pb(1) en by blast
qed

lemma typeA_total:
  "typeA c \<Longrightarrow> set c \<subseteq> {- nc..nc} \<Longrightarrow> 3 \<le> nc \<Longrightarrow> \<exists>d. weigh_sequential c nc = Inr d"
proof (induction "length c" arbitrary: c rule: less_induct)
  case less
  let ?cfg = "get_cfg c nc"
  have nc0: "0 < nc" using less.prems(3) by simp
  have dc: "distinct c" using less.prems(1) by (simp add: typeA_def)
  show ?case
  proof (cases "num_pos ?cfg \<le> 1")
    case True
    then show ?thesis by (simp add: weigh_sequential_code)
  next
    case False
    then have one: "1 < num_pos ?cfg" by simp
    obtain n s1 s2 where s: "getselection ?cfg = Inr (n, s1, s2)" "0 < n"
      and en: "enough_equal nc (weigh c s1 s2 n C_MORE)" "enough_equal nc (weigh c s1 s2 n C_LESS)"
      using typeA_selection[OF less.prems one] by blast
    have sub: "set (weigh c s1 s2 n b) \<subseteq> {- nc..nc}" for b
      using weigh_subset[of c s1 s2 n b] less.prems(2) by blast
    have "\<exists>d. weigh_sequential (weigh c s1 s2 n C_MORE) nc = Inr d"
      by (rule typeB_total[OF weigh_typeA_MORE[OF dc] sub nc0 en(1)])
    then obtain r1 where r1: "weigh_sequential (weigh c s1 s2 n C_MORE) nc = Inr r1" by blast
    have "\<exists>d. weigh_sequential (weigh c s1 s2 n C_LESS) nc = Inr d"
      by (rule typeB_total[OF weigh_typeA_LESS[OF dc] sub nc0 en(2)])
    then obtain r3 where r3: "weigh_sequential (weigh c s1 s2 n C_LESS) nc = Inr r3" by blast
    have sh: "length (weigh c s1 s2 n C_EQUAL) < length c" by (rule selection_shorter[OF one s])
    have "\<exists>d. weigh_sequential (weigh c s1 s2 n C_EQUAL) nc = Inr d"
      by (rule less.hyps[OF sh weigh_typeA_EQUAL[OF less.prems(1)] sub less.prems(3)])
    then obtain r2 where r2: "weigh_sequential (weigh c s1 s2 n C_EQUAL) nc = Inr r2" by blast
    have "weigh_sequential c nc = split_selection c nc s1 s2 n"
      using False s by (simp add: weigh_sequential_code descend_code)
    then show ?thesis using split_selection_Inr[OF r1 r2 r3] by simp
  qed
qed

lemma typeA_new_coins: "0 \<le> n \<Longrightarrow> typeA (new_coins n) \<and> set (new_coins n) \<subseteq> {- n..n}"
  unfolding typeA_def new_coins_def
  by (auto simp: distinct_map inj_on_def)

text \<open>
  For at least 3 coins (\<^verbatim>\<open>main\<close> rejects fewer) the search on the initial possibility
  set returns a depth: no node asks for a coin of type \<open>N=\<close> that is not there, no
  selection is empty, and no configuration is of neither type.
\<close>

theorem search_returns_depth:
  assumes "3 \<le> n"
  shows "\<exists>d. weigh_sequential (new_coins n) n = Inr d"
proof -
  have "typeA (new_coins n) \<and> set (new_coins n) \<subseteq> {- n..n}"
    using assms by (intro typeA_new_coins) simp
  then show ?thesis using typeA_total[OF _ _ assms] by blast
qed

section \<open>The base-3 complement\<close>

text \<open>The exchange of the digits 1 and 2.\<close>

definition sw :: "int \<Rightarrow> int" where
  "sw r = (if r = 1 then 2 else if r = 2 then 1 else 0)"

lemma op_loop_step:
  "x \<noteq> 0 \<Longrightarrow> op_loop x c s = op_loop (x sdiv 3) (c * 3) (s + sw (x smod 3) * c)"
  by (subst op_loop.simps) (simp add: sw_def)

lemma sdiv_3_smaller: "x \<noteq> 0 \<Longrightarrow> nat \<bar>x sdiv 3\<bar> < nat \<bar>x\<bar>"
  by (auto simp: signed_divide_int_def sgn_if abs_mult)

lemma op_loop_linear: "op_loop x c s = s + c * op_loop x 1 0"
proof (induction "nat \<bar>x\<bar>" arbitrary: x c s rule: less_induct)
  case less
  show ?case
  proof (cases "x = 0")
    case True
    then show ?thesis by (simp add: op_loop.simps[of 0])
  next
    case False
    let ?d = "sw (x smod 3)"
    note ih = less[OF sdiv_3_smaller[OF False]]
    have "op_loop x c s = (s + ?d * c) + (c * 3) * op_loop (x sdiv 3) 1 0"
      unfolding op_loop_step[OF False, of c s] by (rule ih)
    moreover have "op_loop x 1 0 = (0 + ?d * 1) + (1 * 3) * op_loop (x sdiv 3) 1 0"
      unfolding op_loop_step[OF False, of 1 0] by (rule ih)
    ultimately show ?thesis by (simp add: algebra_simps)
  qed
qed

lemma op_0 [simp]: "op 0 = 0"
  by (simp add: op_def op_loop.simps[of 0])

lemma op_rec: "0 \<le> x \<Longrightarrow> op x = sw (x mod 3) + 3 * op (x div 3)"
proof (cases "x = 0")
  case True
  then show ?thesis by (simp add: sw_def)
next
  case False
  assume x: "0 \<le> x"
  have "op x = op_loop (x sdiv 3) 3 (sw (x smod 3))"
    unfolding op_def using op_loop_step[OF False, of 1 0] by simp
  also have "\<dots> = sw (x smod 3) + 3 * op (x sdiv 3)"
    unfolding op_def by (rule op_loop_linear)
  finally show ?thesis using x by (simp add: sdiv_3_nonneg smod_nonneg)
qed

lemma sw_range: "0 \<le> sw r \<and> sw r < 3"
  by (simp add: sw_def)

lemma sw_sw: "0 \<le> r \<Longrightarrow> r < 3 \<Longrightarrow> sw (sw r) = r"
  by (auto simp: sw_def)

lemma sw_0_iff: "0 \<le> r \<Longrightarrow> r < 3 \<Longrightarrow> sw r = 0 \<longleftrightarrow> r = 0"
  by (auto simp: sw_def)

lemma sw_neq: "0 < r \<Longrightarrow> r < 3 \<Longrightarrow> sw r \<noteq> r"
  by (auto simp: sw_def)

lemma op_nonneg: "0 \<le> x \<Longrightarrow> 0 \<le> op x"
proof (induction "nat x" arbitrary: x rule: less_induct)
  case less
  show ?case
  proof (cases "x = 0")
    case True
    then show ?thesis by simp
  next
    case False
    then have "nat (x div 3) < nat x" "0 \<le> x div 3" using less.prems by auto
    then have "0 \<le> op (x div 3)" by (rule less.hyps)
    then show ?thesis using op_rec[OF less.prems] sw_range[of "x mod 3"] by simp
  qed
qed

lemma digits_of_sum:
  fixes d y :: int
  assumes "0 \<le> d" "d < 3"
  shows "(d + 3 * y) mod 3 = d" "(d + 3 * y) div 3 = y"
  using assms by simp_all

lemma op_mod_div:
  assumes "0 \<le> x"
  shows "op x mod 3 = sw (x mod 3)" "op x div 3 = op (x div 3)"
  using op_rec[OF assms] sw_range[of "x mod 3"] by (simp_all add: digits_of_sum)

lemma op_op: "0 \<le> x \<Longrightarrow> op (op x) = x"
proof (induction "nat x" arbitrary: x rule: less_induct)
  case less
  show ?case
  proof (cases "x = 0")
    case True
    then show ?thesis by simp
  next
    case False
    then have "nat (x div 3) < nat x" "0 \<le> x div 3" using less.prems by auto
    then have ih: "op (op (x div 3)) = x div 3" by (rule less.hyps)
    have "op (op x) = sw (op x mod 3) + 3 * op (op x div 3)"
      by (rule op_rec) (rule op_nonneg[OF less.prems])
    also have "\<dots> = sw (sw (x mod 3)) + 3 * op (op (x div 3))"
      by (simp add: op_mod_div[OF less.prems])
    also have "\<dots> = x mod 3 + 3 * (x div 3)" by (simp add: ih sw_sw)
    finally show ?thesis by simp
  qed
qed

lemma op_eq_0_iff: "0 \<le> x \<Longrightarrow> op x = 0 \<longleftrightarrow> x = 0"
  using op_op[of x] by auto

lemma op_pos: "0 < x \<Longrightarrow> 0 < op x"
  using op_nonneg[of x] op_eq_0_iff[of x] by auto

lemma op_neq_self: "0 < x \<Longrightarrow> op x \<noteq> x"
proof (induction "nat x" arbitrary: x rule: less_induct)
  case less
  show ?case
  proof (cases "x mod 3 = 0")
    case True
    then have "0 < x div 3" "nat (x div 3) < nat x" using less.prems by auto
    then have "op (x div 3) \<noteq> x div 3" using less.hyps by blast
    then show ?thesis using op_mod_div(2)[of x] less.prems by auto
  next
    case False
    then have "sw (x mod 3) \<noteq> x mod 3" by (intro sw_neq) auto
    then show ?thesis using op_mod_div(1)[of x] less.prems by auto
  qed
qed

lemma op_bound: "0 \<le> x \<Longrightarrow> x < 3 ^ j \<Longrightarrow> op x < 3 ^ j"
proof (induction j arbitrary: x)
  case 0
  then have "x = 0" by simp
  then show ?case by simp
next
  case (Suc j)
  then have "0 \<le> x div 3" "x div 3 < 3 ^ j" by auto
  then have "op (x div 3) < 3 ^ j" by (rule Suc.IH)
  then show ?case using op_rec[OF Suc.prems(1)] sw_range[of "x mod 3"] by simp
qed

lemma op_shift:
  "0 \<le> x \<Longrightarrow> x < 3 ^ j \<Longrightarrow> 0 \<le> d \<Longrightarrow> d < 3 \<Longrightarrow> op (x + d * 3 ^ j) = op x + sw d * 3 ^ j"
proof (induction j arbitrary: x)
  case 0
  then have x: "x = 0" by simp
  have "op d = sw d" using op_rec[of d] 0 by simp
  then show ?case by (simp add: x)
next
  case (Suc j)
  have x3: "0 \<le> x div 3" "x div 3 < 3 ^ j" using Suc.prems by auto
  let ?y = "x + d * 3 ^ Suc j"
  have y0: "0 \<le> ?y" using Suc.prems by simp
  have e: "?y = x + (d * 3 ^ j) * 3" by simp
  have m: "?y mod 3 = x mod 3" unfolding e by (rule mod_mult_self1)
  have dv: "?y div 3 = x div 3 + d * 3 ^ j" unfolding e by simp
  have "op ?y = sw (x mod 3) + 3 * op (x div 3 + d * 3 ^ j)"
    using op_rec[OF y0] by (simp only: m dv)
  also have "\<dots> = sw (x mod 3) + 3 * (op (x div 3) + sw d * 3 ^ j)"
    using Suc.IH[OF x3 Suc.prems(3,4)] by simp
  also have "\<dots> = op x + sw d * 3 ^ Suc j"
    using op_rec[OF Suc.prems(1)] by (simp add: algebra_simps)
  finally show ?case .
qed

section \<open>Free numbers and \<^verbatim>\<open>missing\<close>\<close>

lemma isfree_iff: "isfree t hc \<longleftrightarrow> t \<notin> set hc \<and> t \<notin> op ` set hc"
  by (induction hc) auto

lemma mark_length: "mark b t = Inr t' \<Longrightarrow> length t' = length t"
  by (induction b arbitrary: t) (auto split: if_splits)

lemma mark_nth:
  "mark b t = Inr t' \<Longrightarrow> i < length t \<Longrightarrow>
     t' ! i \<longleftrightarrow> t ! i \<or> (\<exists>x\<in>set b. i = nat x \<or> i = nat (op x))"
proof (induction b arbitrary: t)
  case Nil
  then show ?case by simp
next
  case (Cons x b)
  let ?t = "t[nat x := True, nat (op x) := True]"
  from Cons.prems(1) have m: "mark b ?t = Inr t'"
    and r: "0 \<le> x" "x < int (length t)" "0 \<le> op x" "op x < int (length t)"
    by (auto split: if_splits)
  have "t' ! i \<longleftrightarrow> ?t ! i \<or> (\<exists>y\<in>set b. i = nat y \<or> i = nat (op y))"
    using Cons.IH[OF m] Cons.prems(2) by simp
  moreover have "?t ! i \<longleftrightarrow> t ! i \<or> i = nat x \<or> i = nat (op x)"
    using Cons.prems(2) r by (auto simp: nth_list_update)
  ultimately show ?case by auto
qed

lemma mark_succeeds:
  "\<forall>x\<in>set b. 0 \<le> x \<and> x < int (length t) \<and> 0 \<le> op x \<and> op x < int (length t)
   \<Longrightarrow> \<exists>t'. mark b t = Inr t'"
  by (induction b arbitrary: t) auto

lemma find_upto_Some:
  "find P [1..N] = Some m \<longleftrightarrow> 1 \<le> m \<and> m \<le> N \<and> P m \<and> (\<forall>m'. 1 \<le> m' \<and> m' < m \<longrightarrow> \<not> P m')"
proof
  assume "find P [1..N] = Some m"
  then obtain i where i: "i < length [1..N]" "P ([1..N] ! i)" "m = [1..N] ! i"
    "\<forall>j<i. \<not> P ([1..N] ! j)"
    unfolding find_Some_iff by blast
  have len: "length [1..N] = nat N" by simp
  have nth: "[1..N] ! j = 1 + int j" if "j < nat N" for j
    using that by (simp add: nth_upto)
  have mi: "m = 1 + int i" using i(1,3) nth by simp
  have "\<not> P m'" if "1 \<le> m'" "m' < m" for m'
  proof -
    have "nat (m' - 1) < i" using that mi by simp
    then have "\<not> P ([1..N] ! nat (m' - 1))" using i(4) by blast
    moreover have "[1..N] ! nat (m' - 1) = m'" using that mi i(1) by (simp add: nth_upto)
    ultimately show ?thesis by simp
  qed
  then show "1 \<le> m \<and> m \<le> N \<and> P m \<and> (\<forall>m'. 1 \<le> m' \<and> m' < m \<longrightarrow> \<not> P m')"
    using i(1,2) mi nth by auto
next
  assume a: "1 \<le> m \<and> m \<le> N \<and> P m \<and> (\<forall>m'. 1 \<le> m' \<and> m' < m \<longrightarrow> \<not> P m')"
  have nth: "[1..N] ! j = 1 + int j" if "j < nat N" for j
    using that by (simp add: nth_upto)
  show "find P [1..N] = Some m"
    unfolding find_Some_iff
  proof (intro exI[of _ "nat (m - 1)"] conjI allI impI)
    show "nat (m - 1) < length [1..N]" using a by simp
    show "P ([1..N] ! nat (m - 1))" using a by (simp add: nth_upto)
    show "m = [1..N] ! nat (m - 1)" using a by (simp add: nth_upto)
    fix j assume j: "j < nat (m - 1)"
    have "m \<le> N" using a by blast
    with j have "j < nat N" by linarith
    then have "[1..N] ! j = 1 + int j" by (rule nth)
    moreover have "1 \<le> 1 + int j \<and> 1 + int j < m" using j by auto
    then have "\<not> P (1 + int j)" using a by blast
    ultimately show "\<not> P ([1..N] ! j)" by simp
  qed
qed

lemma find_upto_exists:
  assumes "1 \<le> k" "k \<le> N" "P k"
  shows "\<exists>m. find P [1..N] = Some m"
proof (cases "find P [1..N]")
  case None
  then have "\<not> (\<exists>x\<in>set [1..N]. P x)" by (simp add: find_None_iff)
  then show ?thesis using assms by auto
next
  case (Some m)
  then show ?thesis by blast
qed

text \<open>
  \<^verbatim>\<open>missing\<close> returns the least positive number that is neither a code nor the complement
  of a code, when the codes and their complements lie inside of the table of flags.
\<close>

lemma missing_least:
  assumes n: "n = int (length b)"
    and rng: "\<forall>x\<in>set b. 0 \<le> x \<and> x \<le> N \<and> op x \<le> N"
    and ex: "1 \<le> k" "k \<le> N" "isfree k b"
  shows "\<exists>m. missing b n N = Inr m \<and> 1 \<le> m \<and> m \<le> N \<and> isfree m b
            \<and> (\<forall>m'. 1 \<le> m' \<and> m' < m \<longrightarrow> \<not> isfree m' b)"
proof -
  have rr: "read_range b 0 n = Inr b" using n by (simp add: read_range_def)
  have N0: "0 \<le> N" using ex by simp
  have rng': "\<forall>x\<in>set b. 0 \<le> x \<and> x < int (length (replicate (nat (N + 1)) False))
       \<and> 0 \<le> op x \<and> op x < int (length (replicate (nat (N + 1)) False))"
    using rng N0 op_nonneg by auto
  obtain t where t: "mark b (replicate (nat (N + 1)) False) = Inr t"
    using mark_succeeds[OF rng'] by blast
  have fl: "\<not> t ! nat j \<longleftrightarrow> isfree j b" if "0 \<le> j" "j \<le> N" for j
  proof -
    have "t ! nat j \<longleftrightarrow> (\<exists>x\<in>set b. nat j = nat x \<or> nat j = nat (op x))"
      using mark_nth[OF t, of "nat j"] that by simp
    also have "\<dots> \<longleftrightarrow> (\<exists>x\<in>set b. j = x \<or> j = op x)"
      using that rng' by (intro bex_cong refl) auto
    finally show ?thesis by (auto simp: isfree_iff)
  qed
  have "\<exists>m. find (\<lambda>j. \<not> t ! nat j) [1..N] = Some m"
    using find_upto_exists[of k N "\<lambda>j. \<not> t ! nat j"] ex fl[of k] by simp
  then obtain m where m: "find (\<lambda>j. \<not> t ! nat j) [1..N] = Some m" by blast
  then have mm: "1 \<le> m" "m \<le> N" "\<not> t ! nat m" "\<forall>m'. 1 \<le> m' \<and> m' < m \<longrightarrow> t ! nat m'"
    unfolding find_upto_Some by auto
  have "missing b n N = Inr m"
    by (simp add: missing_def rr t m bnd_def)
  moreover have "isfree m b" using fl[of m] mm by simp
  moreover have "\<not> isfree m' b" if "1 \<le> m'" "m' < m" for m'
    using fl[of m'] mm that by auto
  ultimately show ?thesis using mm(1,2) by blast
qed

lemma free_exists:
  assumes "2 * int (length b) < N"
  shows "\<exists>k. 1 \<le> k \<and> k \<le> N \<and> isfree k b"
proof (rule ccontr)
  assume "\<not> ?thesis"
  then have "{1..N} \<subseteq> set b \<union> op ` set b" by (auto simp: isfree_iff)
  then have "card {1..N} \<le> card (set b \<union> op ` set b)" by (intro card_mono) auto
  also have "\<dots> \<le> card (set b) + card (op ` set b)" by (rule card_Un_le)
  also have "\<dots> \<le> length b + length b"
    by (intro add_mono card_length order_trans[OF card_image_le]) auto
  finally show False using assms by simp
qed

section \<open>The invariant of the tables of heavy codes\<close>

text \<open>
  The invariant of a table of heavy codes with \<open>j\<close> digits: the codes are positive and
  below \<open>3 ^ j\<close>, pairwise different, and no code is the complement of a code.
\<close>

definition codes_ok :: "nat \<Rightarrow> int list \<Rightarrow> bool" where
  "codes_ok j b \<longleftrightarrow>
     (\<forall>x\<in>set b. 0 < x \<and> x < 3 ^ j) \<and> distinct b \<and> (\<forall>x\<in>set b. \<forall>y\<in>set b. x \<noteq> op y)"

lemma codes_ok_mono:
  assumes "codes_ok j b" and "j \<le> j'"
  shows "codes_ok j' b"
proof -
  have p: "(3::int) ^ j \<le> 3 ^ j'" using assms(2) by (simp add: power_increasing)
  have r: "\<forall>x\<in>set b. 0 < x \<and> x < 3 ^ j" and d: "distinct b"
    and o: "\<forall>x\<in>set b. \<forall>y\<in>set b. x \<noteq> op y"
    using assms(1) unfolding codes_ok_def by simp_all
  have r': "\<forall>x\<in>set b. 0 < x \<and> x < 3 ^ j'"
  proof
    fix x assume "x \<in> set b"
    then have "0 < x \<and> x < 3 ^ j" by (rule bspec[OF r])
    then show "0 < x \<and> x < 3 ^ j'" using p by linarith
  qed
  show ?thesis unfolding codes_ok_def by (intro conjI r' d o)
qed

lemma codes_ok_mset:
  assumes "mset b = mset b'"
  shows "codes_ok j b \<longleftrightarrow> codes_ok j b'"
proof -
  have s: "set b = set b'" by (rule mset_eq_setD[OF assms])
  have d: "distinct b = distinct b'" by (rule mset_eq_imp_distinct_iff[OF assms])
  show ?thesis unfolding codes_ok_def s d ..
qed

text \<open>A number \<open>v + d * c\<close> with \<open>0 \<le> v < c\<close> determines its leading digit \<open>d\<close> and \<open>v\<close>.\<close>

lemma lead_unique:
  fixes c v v' d d' :: int
  assumes "v + d * c = v' + d' * c" "0 \<le> v" "v < c" "0 \<le> v'" "v' < c"
  shows "d = d' \<and> v = v'"
proof -
  have "(d - d') * c = v' - v" using assms(1) by (simp add: algebra_simps)
  moreover have "\<bar>v' - v\<bar> < c" using assms(2-5) by linarith
  ultimately have "\<bar>(d - d') * c\<bar> < c" by simp
  then have "\<bar>d - d'\<bar> * c < 1 * c" using assms(2,3) by (simp add: abs_mult)
  have "\<bar>d - d'\<bar> < 1"
  proof (rule ccontr)
    assume "\<not> \<bar>d - d'\<bar> < 1"
    then have "1 \<le> \<bar>d - d'\<bar>" by simp
    then have "1 * c \<le> \<bar>d - d'\<bar> * c" using assms(2,3) by (intro mult_right_mono) auto
    with \<open>\<bar>d - d'\<bar> * c < 1 * c\<close> show False by simp
  qed
  then have "d = d'" by linarith
  then show ?thesis using assms(1) by simp
qed

lemma three_classes_ok:
  fixes c :: int and L0 L1 L2 :: "int list"
  assumes c: "c = 3 ^ j"
    and r0: "\<forall>v\<in>set L0. 0 < v \<and> v < c" and r1: "\<forall>v\<in>set L1. 0 \<le> v \<and> v < c"
    and r2: "\<forall>v\<in>set L2. 0 \<le> v \<and> v < c"
    and d: "distinct L0" "distinct L1" "distinct L2"
    and o0: "\<forall>x\<in>set L0. \<forall>y\<in>set L0. x \<noteq> op y"
    and o1: "\<forall>x\<in>set L1. \<forall>y\<in>set L2. x \<noteq> op y"
    and o2: "\<forall>x\<in>set L2. \<forall>y\<in>set L1. x \<noteq> op y"
  shows "codes_ok (Suc j) (L0 @ map (\<lambda>v. v + 1 * c) L1 @ map (\<lambda>v. v + 2 * c) L2)"
proof -
  let ?L = "L0 @ map (\<lambda>v. v + 1 * c) L1 @ map (\<lambda>v. v + 2 * c) L2"
  have c0: "0 < c" by (simp add: c)
  have c3: "(3::int) ^ Suc j = 3 * c" by (simp add: c)
  define cls where "cls dd = (if dd = (0::int) then set L0 else if dd = 1 then set L1 else set L2)" for dd
  have rep: "\<exists>dd v. (dd = 0 \<or> dd = 1 \<or> dd = 2) \<and> v \<in> cls dd \<and> x = v + dd * c" if "x \<in> set ?L" for x
  proof -
    from that have "x \<in> set L0 \<or> x \<in> (\<lambda>v. v + 1 * c) ` set L1 \<or> x \<in> (\<lambda>v. v + 2 * c) ` set L2"
      by simp
    then consider "x \<in> set L0" | v where "v \<in> set L1" "x = v + 1 * c"
      | v where "v \<in> set L2" "x = v + 2 * c" by blast
    then show ?thesis
    proof cases
      case 1
      then have "x \<in> cls 0" "x = x + 0 * c" by (simp_all add: cls_def)
      then show ?thesis by blast
    next
      case 2
      then have "v \<in> cls 1" by (simp add: cls_def)
      then show ?thesis using 2(2) by blast
    next
      case 3
      then have "v \<in> cls 2" by (simp add: cls_def)
      then show ?thesis using 3(2) by blast
    qed
  qed
  have rc: "0 \<le> v \<and> v < c" if "v \<in> cls dd" for v dd
  proof -
    from that have "v \<in> set L0 \<or> v \<in> set L1 \<or> v \<in> set L2" by (simp add: cls_def split: if_splits)
    then show ?thesis using r0 r1 r2 by fastforce
  qed
  have oc: "v \<noteq> op v'" if "v \<in> cls dd" "v' \<in> cls dd'" "dd = sw dd'"
     "dd' = 0 \<or> dd' = 1 \<or> dd' = 2" for v v' dd dd'
  proof -
    have "dd' = 0 \<and> dd = 0 \<or> dd' = 1 \<and> dd = 2 \<or> dd' = 2 \<and> dd = 1"
      using that(3,4) by (auto simp: sw_def)
    then consider "dd' = 0" "dd = 0" | "dd' = 1" "dd = 2" | "dd' = 2" "dd = 1"
      by blast
    then show ?thesis
    proof cases
      case 1
      then have "v \<in> set L0" "v' \<in> set L0" using that(1,2) by (simp_all add: cls_def)
      then show ?thesis using o0 by blast
    next
      case 2
      then have "v \<in> set L2" "v' \<in> set L1" using that(1,2) by (simp_all add: cls_def)
      then show ?thesis using o2 by blast
    next
      case 3
      then have "v \<in> set L1" "v' \<in> set L2" using that(1,2) by (simp_all add: cls_def)
      then show ?thesis using o1 by blast
    qed
  qed
  have rng: "0 < x \<and> x < 3 ^ Suc j" if "x \<in> set ?L" for x
  proof -
    from that have "x \<in> set L0 \<or> x \<in> (\<lambda>v. v + 1 * c) ` set L1 \<or> x \<in> (\<lambda>v. v + 2 * c) ` set L2"
      by simp
    then consider "x \<in> set L0" | v where "v \<in> set L1" "x = v + 1 * c"
      | v where "v \<in> set L2" "x = v + 2 * c" by blast
    then show ?thesis
    proof cases
      case 1
      then have "0 < x \<and> x < c" using r0 by blast
      then show ?thesis unfolding c3 using c0 by linarith
    next
      case 2
      then have "0 \<le> v \<and> v < c" using r1 by blast
      then show ?thesis unfolding c3 2(2) using c0 by linarith
    next
      case 3
      then have "0 \<le> v \<and> v < c" using r2 by blast
      then show ?thesis unfolding c3 3(2) using c0 by linarith
    qed
  qed
  have inj: "inj_on (\<lambda>v. v + k * c) A" for k :: int and A by (simp add: inj_on_def)
  have d1: "distinct (map (\<lambda>v. v + 1 * c) L1)" "distinct (map (\<lambda>v. v + 2 * c) L2)"
    using d(2,3) inj by (simp_all add: distinct_map)
  have x01: "set L0 \<inter> set (map (\<lambda>v. v + 1 * c) L1) = {}"
  proof (rule ccontr)
    assume "\<not> ?thesis"
    then obtain x where "x \<in> set L0" "x \<in> (\<lambda>v. v + 1 * c) ` set L1" by auto
    then obtain v where a: "x \<in> set L0" "v \<in> set L1" "x = v + 1 * c" by blast
    have "0 < x \<and> x < c" using a(1) r0 by blast
    moreover have "0 \<le> v \<and> v < c" using a(2) r1 by blast
    ultimately show False using a(3) by simp
  qed
  have x02: "set L0 \<inter> set (map (\<lambda>v. v + 2 * c) L2) = {}"
  proof (rule ccontr)
    assume "\<not> ?thesis"
    then obtain x where "x \<in> set L0" "x \<in> (\<lambda>v. v + 2 * c) ` set L2" by auto
    then obtain v where a: "x \<in> set L0" "v \<in> set L2" "x = v + 2 * c" by blast
    have "0 < x \<and> x < c" using a(1) r0 by blast
    moreover have "0 \<le> v \<and> v < c" using a(2) r2 by blast
    ultimately show False using a(3) by simp
  qed
  have x12: "set (map (\<lambda>v. v + 1 * c) L1) \<inter> set (map (\<lambda>v. v + 2 * c) L2) = {}"
  proof (rule ccontr)
    assume "\<not> ?thesis"
    then obtain x where "x \<in> (\<lambda>v. v + 1 * c) ` set L1" "x \<in> (\<lambda>v. v + 2 * c) ` set L2" by auto
    then obtain v v' where a: "v \<in> set L1" "v' \<in> set L2" "x = v + 1 * c" "x = v' + 2 * c" by blast
    have "0 \<le> v \<and> v < c" using a(1) r1 by blast
    moreover have "0 \<le> v' \<and> v' < c" using a(2) r2 by blast
    ultimately show False using a(3,4) by simp
  qed
  have d12: "distinct (map (\<lambda>v. v + 1 * c) L1 @ map (\<lambda>v. v + 2 * c) L2)"
    by (simp only: distinct_append d1 x12 simp_thms)
  have x012: "set L0 \<inter> set (map (\<lambda>v. v + 1 * c) L1 @ map (\<lambda>v. v + 2 * c) L2) = {}"
    by (simp only: set_append Int_Un_distrib x01 x02 Un_empty_left)
  have dist: "distinct ?L"
    by (simp only: distinct_append[of L0] d(1) d12 x012 simp_thms)
  have cl: "x \<noteq> op y" if x: "x \<in> set ?L" and y: "y \<in> set ?L" for x y
  proof
    assume e: "x = op y"
    obtain dx vx where x': "dx = 0 \<or> dx = 1 \<or> dx = 2" "vx \<in> cls dx" "x = vx + dx * c"
      using rep[OF x] by blast
    obtain dy vy where y': "dy = 0 \<or> dy = 1 \<or> dy = 2" "vy \<in> cls dy" "y = vy + dy * c"
      using rep[OF y] by blast
    have ry: "0 \<le> vy" "vy < c" using rc[OF y'(2)] by simp_all
    have rx: "0 \<le> vx" "vx < c" using rc[OF x'(2)] by simp_all
    have dy3: "0 \<le> dy" "dy < 3" using y'(1) by auto
    have oy: "op y = op vy + sw dy * c"
      unfolding y'(3) c using op_shift[OF ry(1) ry(2)[unfolded c] dy3] .
    have "vx + dx * c = x" by (simp only: x'(3))
    also have "\<dots> = op y" by (rule e)
    also note oy
    finally have eq: "vx + dx * c = op vy + sw dy * c" .
    have ob: "0 \<le> op vy" "op vy < c"
      using op_nonneg[OF ry(1)] op_bound[OF ry(1) ry(2)[unfolded c]] by (simp_all only: c)
    have u: "dx = sw dy \<and> vx = op vy"
      by (rule lead_unique[OF eq rx(1) rx(2) ob(1) ob(2)])
    have "vx \<noteq> op vy" by (rule oc[OF x'(2) y'(2) conjunct1[OF u] y'(1)])
    then show False using u by blast
  qed
  show ?thesis unfolding codes_ok_def using rng dist cl by blast
qed

lemma pow3_half: "(3::int) ^ j div 2 = (3 ^ j - 1) div 2"
proof -
  have "odd ((3::int) ^ j)" by simp
  then obtain h where h: "(3::int) ^ j = 2 * h + 1" by (rule oddE)
  show ?thesis unfolding h by simp
qed

lemma pow3_half_Suc: "((3::int) ^ Suc j - 1) div 2 - 1 = 3 * ((3 ^ j - 1) div 2 - 1) + 3"
proof -
  have "odd ((3::int) ^ j)" by simp
  then obtain h where h: "(3::int) ^ j = 2 * h + 1" by (rule oddE)
  have "(3::int) ^ Suc j - 1 = 2 * (3 * h + 1)" by (simp add: h)
  then have "((3::int) ^ Suc j - 1) div 2 = 3 * h + 1" by simp
  moreover have "((3::int) ^ j - 1) div 2 = h" by (simp add: h)
  ultimately show ?thesis by simp
qed

lemma op_inj: "0 \<le> x \<Longrightarrow> 0 \<le> y \<Longrightarrow> op x = op y \<Longrightarrow> x = y"
proof -
  assume a: "0 \<le> x" "0 \<le> y" "op x = op y"
  have "x = op (op x)" using op_op[OF a(1)] by simp
  also have "\<dots> = op (op y)" by (simp only: a(3))
  also have "\<dots> = y" by (rule op_op[OF a(2)])
  finally show ?thesis .
qed

lemma codes_ok_base: "codes_ok 2 [1, 8, 3]"
proof -
  have o: "op 1 = 2" "op 8 = 4" "op 3 = 6" by code_simp+
  show ?thesis unfolding codes_ok_def by (simp add: o)
qed

text \<open>
  The step of \<^verbatim>\<open>getbase\<close>: a table of codes with \<open>j\<close> digits and a free number \<open>m\<close> give
  a table with one more digit.
\<close>

lemma extend_ok:
  fixes b :: "int list" and m c :: int
  assumes ok: "codes_ok j b" and c: "c = 3 ^ j" and m: "1 \<le> m" "m < c" and f: "isfree m b"
  shows "codes_ok (Suc j) (b @ map (\<lambda>x. x + c) b @ map (\<lambda>x. x + 2 * c) b @ [2 * c, m, c + op m])"
proof -
  let ?L0 = "b @ [m]" and ?L1 = "b @ [op m]" and ?L2 = "b @ [0]"
  have c0: "0 < c" by (simp add: c)
  have r: "\<forall>x\<in>set b. 0 < x \<and> x < c" and d: "distinct b"
    and o: "\<forall>x\<in>set b. \<forall>y\<in>set b. x \<noteq> op y"
    using ok unfolding codes_ok_def c by simp_all
  have fm: "m \<notin> set b" "m \<notin> op ` set b" using f by (simp_all add: isfree_iff)
  have m0: "0 \<le> m" "0 < m" using m by simp_all
  have om: "0 < op m" "op m < c"
    using op_pos[OF m0(2)] op_bound[OF m0(1) m(2)[unfolded c]] by (simp_all only: c)
  have bpos: "0 < y \<and> y < c" if "y \<in> set b" for y using that by (rule bspec[OF r])
  have omb: "op m \<notin> set b"
  proof
    assume "op m \<in> set b"
    then have "op (op m) \<in> op ` set b" by (rule imageI)
    then show False using fm(2) by (simp only: op_op[OF m0(1)])
  qed
  have omo: "op m \<noteq> op y" if "y \<in> set b" for y
  proof
    assume e: "op m = op y"
    have "0 \<le> y" using bpos[OF that] by simp
    then have "m = y" using e by (intro op_inj[OF m0(1)])
    then show False using fm(1) that by simp
  qed
  have mo: "m \<noteq> op y" if "y \<in> set b" for y
  proof
    assume "m = op y"
    then have "m \<in> op ` set b" using that by (simp only: image_eqI)
    then show False using fm(2) by simp
  qed
  have xomm: "x \<noteq> op (op m)" if "x \<in> set b" for x
    using that fm(1) by (auto simp only: op_op[OF m0(1)])
  have r0: "\<forall>v\<in>set ?L0. 0 < v \<and> v < c"
  proof
    fix v assume "v \<in> set ?L0"
    then have "v \<in> set b \<or> v = m" by auto
    then show "0 < v \<and> v < c" using bpos[of v] m by auto
  qed
  have r1: "\<forall>v\<in>set ?L1. 0 \<le> v \<and> v < c"
  proof
    fix v assume "v \<in> set ?L1"
    then have "v \<in> set b \<or> v = op m" by auto
    then show "0 \<le> v \<and> v < c" using bpos[of v] om by auto
  qed
  have r2: "\<forall>v\<in>set ?L2. 0 \<le> v \<and> v < c"
  proof
    fix v assume "v \<in> set ?L2"
    then have "v \<in> set b \<or> v = 0" by auto
    then show "0 \<le> v \<and> v < c" using bpos[of v] c0 by auto
  qed
  have zb: "0 \<notin> set b" using bpos[of 0] by auto
  have d0: "distinct ?L0" using d fm(1) by simp
  have d1: "distinct ?L1" using d omb by simp
  have d2: "distinct ?L2" using d zb by simp
  have o0: "\<forall>x\<in>set ?L0. \<forall>y\<in>set ?L0. x \<noteq> op y"
  proof (intro ballI)
    fix x y assume "x \<in> set ?L0" "y \<in> set ?L0"
    then have "x \<in> set b \<or> x = m" "y \<in> set b \<or> y = m" by auto
    then consider "x \<in> set b" "y \<in> set b" | "x = m" "y \<in> set b" | "x \<in> set b" "y = m"
      | "x = m" "y = m" by blast
    then show "x \<noteq> op y"
    proof cases
      case 1 then show ?thesis using bspec[OF bspec[OF o]] by simp
    next
      case 2 then show ?thesis using mo[OF 2(2)] by simp
    next
      case 3 then show ?thesis using omb by auto
    next
      case 4 then show ?thesis using op_neq_self[OF m0(2)] by simp
    qed
  qed
  have o1: "\<forall>x\<in>set ?L1. \<forall>y\<in>set ?L2. x \<noteq> op y"
  proof (intro ballI)
    fix x y assume "x \<in> set ?L1" "y \<in> set ?L2"
    then have "x \<in> set b \<or> x = op m" "y \<in> set b \<or> y = 0" by auto
    then consider "x \<in> set b" "y \<in> set b" | "x = op m" "y \<in> set b" | "x \<in> set b" "y = 0"
      | "x = op m" "y = 0" by blast
    then show "x \<noteq> op y"
    proof cases
      case 1 then show ?thesis using bspec[OF bspec[OF o]] by simp
    next
      case 2 then show ?thesis using omo[OF 2(2)] by simp
    next
      case 3 then show ?thesis using zb by auto
    next
      case 4 then show ?thesis using om(1) by simp
    qed
  qed
  have o2: "\<forall>x\<in>set ?L2. \<forall>y\<in>set ?L1. x \<noteq> op y"
  proof (intro ballI)
    fix x y assume "x \<in> set ?L2" "y \<in> set ?L1"
    then have "x \<in> set b \<or> x = 0" "y \<in> set b \<or> y = op m" by auto
    then consider "x \<in> set b" "y \<in> set b" | "x = 0" "y \<in> set b" | "x \<in> set b" "y = op m"
      | "x = 0" "y = op m" by blast
    then show "x \<noteq> op y"
    proof cases
      case 1 then show ?thesis using bspec[OF bspec[OF o]] by simp
    next
      case 2
      have "0 < op y" using bpos[OF 2(2)] by (intro op_pos) simp
      then show ?thesis using 2(1) by simp
    next
      case 3 then show ?thesis using xomm[OF 3(1)] by simp
    next
      case 4 then show ?thesis using m0(2) by (simp only: op_op[OF m0(1)])
    qed
  qed
  have t: "codes_ok (Suc j) (?L0 @ map (\<lambda>v. v + 1 * c) ?L1 @ map (\<lambda>v. v + 2 * c) ?L2)"
    by (rule three_classes_ok[OF c r0 r1 r2 d0 d1 d2 o0 o1 o2])
  have ms: "mset (b @ map (\<lambda>x. x + c) b @ map (\<lambda>x. x + 2 * c) b @ [2 * c, m, c + op m])
          = mset (?L0 @ map (\<lambda>v. v + 1 * c) ?L1 @ map (\<lambda>v. v + 2 * c) ?L2)"
    by (simp add: add.commute)
  show ?thesis using t by (simp only: codes_ok_mset[OF ms])
qed

section \<open>The saturated construction\<close>

lemma getbase_extend:
  assumes k: "2 \<le> k" and g: "getbase k = Some (Inr b)" and ok: "codes_ok (nat k) b"
    and len: "int (length b) = (3 ^ nat k - 1) div 2 - 1"
  defines "c \<equiv> 3 ^ nat k"
  shows "\<exists>m. missing b (int (length b)) (c - 1) = Inr m \<and> 1 \<le> m \<and> m < c \<and> isfree m b
            \<and> (\<forall>m'. 1 \<le> m' \<and> m' < m \<longrightarrow> \<not> isfree m' b)
            \<and> getbase (k + 1)
                = Some (Inr (sort (b @ map (\<lambda>x. x + c) b @ map (\<lambda>x. x + 2 * c) b
                                     @ [2 * c, m, c + op m])))
            \<and> codes_ok (nat (k + 1)) (sort (b @ map (\<lambda>x. x + c) b @ map (\<lambda>x. x + 2 * c) b
                                     @ [2 * c, m, c + op m]))
            \<and> int (length (sort (b @ map (\<lambda>x. x + c) b @ map (\<lambda>x. x + 2 * c) b
                                     @ [2 * c, m, c + op m])))
                = (3 ^ nat (k + 1) - 1) div 2 - 1"
proof -
  define n where "n = int (length b)"
  have ip: "ipow 3 k = c" by (simp add: ipow_eq c_def)
  have c0: "0 < c" by (simp add: c_def)
  have nk: "nat (k + 1) = Suc (nat k)" using k by simp
  have ip1: "ipow 3 (k + 1) = 3 * c" by (simp add: ipow_eq c_def nk)
  have len': "n = (c - 1) div 2 - 1" using len by (simp add: n_def c_def)
  have half: "c sdiv 2 - 1 = n"
    using c0 by (simp add: sdiv_2_nonneg len' c_def pow3_half)
  have r: "\<forall>x\<in>set b. 0 < x \<and> x < c" and d: "distinct b"
    using ok unfolding codes_ok_def c_def by simp_all
  have rng: "\<forall>x\<in>set b. 0 \<le> x \<and> x \<le> c - 1 \<and> op x \<le> c - 1"
  proof
    fix x assume "x \<in> set b"
    then have x: "0 < x \<and> x < c" by (rule bspec[OF r])
    then have "op x < c" unfolding c_def by (intro op_bound) simp_all
    then show "0 \<le> x \<and> x \<le> c - 1 \<and> op x \<le> c - 1" using x by simp
  qed
  have "2 * ((c - 1) div 2) \<le> c - 1" by simp
  then have "2 * int (length b) < c - 1" using len' by (simp add: n_def)
  then obtain k0 where k0: "1 \<le> k0" "k0 \<le> c - 1" "isfree k0 b"
    using free_exists[of b "c - 1"] by blast
  obtain m where m: "missing b n (c - 1) = Inr m" "1 \<le> m" "m \<le> c - 1" "isfree m b"
    "\<forall>m'. 1 \<le> m' \<and> m' < m \<longrightarrow> \<not> isfree m' b"
    using missing_least[OF n_def rng k0] by blast
  let ?L = "b @ map (\<lambda>x. x + c) b @ map (\<lambda>x. x + 2 * c) b @ [2 * c, m, c + op m]"
  have rr: "read_range b 0 n = Inr b" by (simp add: read_range_def n_def)
  have lenL: "int (length ?L) = 3 * n + 3" by (simp add: n_def)
  have next_len: "(3 ^ nat (k + 1) - 1) div 2 - 1 = 3 * n + 3"
    unfolding nk pow3_half_Suc using len by (simp add: n_def)
  have q: "ipow 3 (k + 1) sdiv 2 - 1 = int (length ?L)"
  proof -
    have "ipow 3 (k + 1) sdiv 2 = 3 ^ nat (k + 1) div 2"
      by (simp add: ipow_eq sdiv_2_nonneg)
    also have "\<dots> = (3 ^ nat (k + 1) - 1) div 2" by (rule pow3_half)
    finally show ?thesis using next_len lenL by simp
  qed
  have qs: "qsort ?L (int (length ?L)) = sort ?L" unfolding qsort_def by simp
  have k1: "k + 1 \<noteq> 2" "k + 1 - 1 = k" using k by simp_all
  have gb: "getbase (k + 1) = Some (Inr (sort ?L))"
    by (subst getbase.simps)
       (simp only: k1 if_False g Option.bind.simps bnd_def sum.case Let_def ip half m(1) rr q qs)
  have okL: "codes_ok (Suc (nat k)) ?L"
    using m(3) by (intro extend_ok[OF ok _ m(2) _ m(4)]) (simp_all add: c_def)
  have oks: "codes_ok (nat (k + 1)) (sort ?L)"
    using okL codes_ok_mset[of "sort ?L" ?L "Suc (nat k)"] by (simp only: nk mset_sort)
  have lens: "int (length (sort ?L)) = (3 ^ nat (k + 1) - 1) div 2 - 1"
    using next_len lenL by simp
  have mc: "m < c" using m(3) by simp
  show ?thesis
    using m(1)[unfolded n_def] m(2) mc m(4) m(5) gb oks lens by blast
qed

lemma getbase_2: "getbase 2 = Some (Inr [1, 8, 3])"
  by (subst getbase.simps) simp

text \<open>
  \<^verbatim>\<open>getbase(k, b)\<close> returns for every \<open>k \<ge> 2\<close>, with a table of \<open>(3 ^ k - 1) / 2 - 1\<close> codes
  of \<open>k\<close> digits that satisfies the invariant.
\<close>

lemma getbase_invariant:
  "2 \<le> k \<Longrightarrow> \<exists>b. getbase k = Some (Inr b) \<and> codes_ok (nat k) b
                    \<and> int (length b) = (3 ^ nat k - 1) div 2 - 1"
proof (induction k rule: int_ge_induct)
  case base
  have "codes_ok (nat 2) [1, 8, 3]" using codes_ok_base by (simp add: numeral_2_eq_2)
  then show ?case using getbase_2 by simp
next
  case (step i)
  then obtain b where b: "getbase i = Some (Inr b)" "codes_ok (nat i) b"
    "int (length b) = (3 ^ nat i - 1) div 2 - 1" by blast
  show ?case using getbase_extend[OF step.hyps b] by blast
qed

text \<open>
  Claim C7. In the step of \<^verbatim>\<open>getbase\<close> from the solution \<open>b\<close> for \<open>k - 1\<close> weighings to the
  solution for \<open>k \<ge> 3\<close> weighings, with \<open>c = 3 ^ (k - 1)\<close>: \<^verbatim>\<open>missing\<close> returns the least
  positive number \<open>m\<close> that is neither a code of \<open>b\<close> nor the complement of a code of \<open>b\<close>
  (this is \<^verbatim>\<open>isfree\<close>). The program scans \<open>1, ..., c - 1\<close> and always finds \<open>m\<close> there,
  so \<open>m\<close> is also the first free number of the scan of \<open>1, ..., 3 ^ k - 1\<close>. The new table
  is made of the codes of \<open>b\<close> with the leading digits 0, 1 and 2, the code \<open>2 * c\<close>, and
  the codes \<open>m\<close> and \<open>c + op m\<close>, in ascending order.
\<close>

theorem getbase_appends_least_free:
  assumes "3 \<le> k"
  shows "\<exists>b m. getbase (k - 1) = Some (Inr b)
           \<and> missing b (int (length b)) (3 ^ nat (k - 1) - 1) = Inr m
           \<and> 1 \<le> m \<and> m < 3 ^ nat (k - 1) \<and> isfree m b
           \<and> (\<forall>m'. 1 \<le> m' \<and> m' < m \<longrightarrow> \<not> isfree m' b)
           \<and> find (\<lambda>x. isfree x b) [1..3 ^ nat k - 1] = Some m
           \<and> getbase k
               = Some (Inr (sort (b @ map (\<lambda>x. x + 3 ^ nat (k - 1)) b
                                    @ map (\<lambda>x. x + 2 * 3 ^ nat (k - 1)) b
                                    @ [2 * 3 ^ nat (k - 1), m, 3 ^ nat (k - 1) + op m])))"
proof -
  have k1: "2 \<le> k - 1" using assms by simp
  obtain b where b: "getbase (k - 1) = Some (Inr b)" "codes_ok (nat (k - 1)) b"
    "int (length b) = (3 ^ nat (k - 1) - 1) div 2 - 1"
    using getbase_invariant[OF k1] by blast
  define c :: int where "c = 3 ^ nat (k - 1)"
  obtain m where m: "missing b (int (length b)) (c - 1) = Inr m" "1 \<le> m" "m < c" "isfree m b"
    "\<forall>m'. 1 \<le> m' \<and> m' < m \<longrightarrow> \<not> isfree m' b"
    "getbase (k - 1 + 1)
       = Some (Inr (sort (b @ map (\<lambda>x. x + c) b @ map (\<lambda>x. x + 2 * c) b @ [2 * c, m, c + op m])))"
    using getbase_extend[OF k1 b] unfolding c_def by blast
  have "c \<le> 3 ^ nat k" unfolding c_def by (rule power_increasing) simp_all
  then have "m \<le> 3 ^ nat k - 1" using m(3) by linarith
  then have f: "find (\<lambda>x. isfree x b) [1..3 ^ nat k - 1] = Some m"
    using m(2,4,5) by (simp only: find_upto_Some)
  have g: "getbase k
       = Some (Inr (sort (b @ map (\<lambda>x. x + c) b @ map (\<lambda>x. x + 2 * c) b @ [2 * c, m, c + op m])))"
    using m(6) by simp
  show ?thesis
    using b(1) m(1,2,3,4,5) f g unfolding c_def by blast
qed

theorem getbase_appends_least_free_witness:
  "(3::int) \<le> 3 \<and> getbase 2 = Some (Inr [1, 8, 3]) \<and> missing [1, 8, 3] 3 8 = Inr 5
   \<and> find (\<lambda>x. isfree x [1, 8, 3]) [1..26] = Some 5 \<and> op 5 = 7
   \<and> getbase 3 = Some (Inr [1, 3, 5, 8, 10, 12, 16, 17, 18, 19, 21, 26])"
proof -
  have k: "(3::int) \<le> 3" by simp
  obtain b m where t: "getbase (3 - 1) = Some (Inr b)"
    "missing b (int (length b)) (3 ^ nat (3 - 1) - 1) = Inr m"
    "find (\<lambda>x. isfree x b) [1..3 ^ nat 3 - 1] = Some m"
    "getbase 3 = Some (Inr (sort (b @ map (\<lambda>x. x + 3 ^ nat (3 - 1)) b
                                    @ map (\<lambda>x. x + 2 * 3 ^ nat (3 - 1)) b
                                    @ [2 * 3 ^ nat (3 - 1), m, 3 ^ nat (3 - 1) + op m])))"
    using getbase_appends_least_free[OF k] by blast
  have b: "b = [1, 8, 3]" using t(1) getbase_2 by simp
  have n: "nat (3 - 1) = 2" "nat 3 = 3" by simp_all
  have ms: "missing [1, 8, 3] 3 8 = Inr 5" by code_simp
  have m: "m = 5" using t(2) ms unfolding b n by simp
  have o: "op 5 = 7" by code_simp
  show ?thesis using t(3,4) ms unfolding b m n o by (simp add: getbase_2)
qed

section \<open>Adding a coin to a table\<close>

text \<open>
  The digits that \<^verbatim>\<open>mcomplement\<close> computes: \<open>mcd n m h\<close> is the result for \<open>n\<close> digits, and
  \<open>None\<close> when \<open>m\<close> and \<open>h\<close> have a digit different from 0 at the same position.
\<close>

fun mcd :: "nat \<Rightarrow> int \<Rightarrow> int \<Rightarrow> int option" where
  "mcd 0 m h = Some 0"
| "mcd (Suc n) m h =
     (if m mod 3 = 0 then map_option (\<lambda>t. h mod 3 + 3 * t) (mcd n (m div 3) (h div 3))
      else if h mod 3 \<noteq> 0 then None
      else map_option (\<lambda>t. sw (m mod 3) + 3 * t) (mcd n (m div 3) (h div 3)))"

lemma mcomp_loop_mcd:
  "0 \<le> m \<Longrightarrow> 0 \<le> h \<Longrightarrow>
     mcomp_loop j (j + int n) m h c s = (case mcd n m h of None \<Rightarrow> 0 | Some t \<Rightarrow> s + c * t)"
proof (induction n arbitrary: j m h c s)
  case 0
  show ?case by (subst mcomp_loop.simps) simp
next
  case (Suc n)
  have m3: "m smod 3 = m mod 3" "m sdiv 3 = m div 3" "0 \<le> m div 3"
    using Suc.prems(1) by (simp_all add: smod_nonneg sdiv_3_nonneg)
  have h3: "h smod 3 = h mod 3" "h sdiv 3 = h div 3" "0 \<le> h div 3"
    using Suc.prems(2) by (simp_all add: smod_nonneg sdiv_3_nonneg)
  have j: "j < j + int (Suc n)" "j + int (Suc n) = (j + 1) + int n" by simp_all
  note IH = Suc.IH[OF m3(3) h3(3), of "j + 1"]
  have r: "m mod 3 = 0 \<or> m mod 3 = 1 \<or> m mod 3 = 2" by presburger
  have step: "mcomp_loop j (j + int (Suc n)) m h c s =
     (if m mod 3 = 0 then mcomp_loop (j + 1) ((j + 1) + int n) (m div 3) (h div 3) (c * 3) (s + h mod 3 * c)
      else if h mod 3 \<noteq> 0 then 0
      else mcomp_loop (j + 1) ((j + 1) + int n) (m div 3) (h div 3) (c * 3)
             (s + (if m mod 3 = 1 then 2 else 1) * c))"
    by (subst mcomp_loop.simps) (simp add: Let_def m3 h3 add.assoc)
  show ?case
  proof (cases "m mod 3 = 0")
    case True
    have "mcomp_loop j (j + int (Suc n)) m h c s
        = mcomp_loop (j + 1) ((j + 1) + int n) (m div 3) (h div 3) (c * 3) (s + h mod 3 * c)"
      unfolding step using True by simp
    also have "\<dots> = (case mcd n (m div 3) (h div 3) of None \<Rightarrow> 0
           | Some t \<Rightarrow> (s + h mod 3 * c) + c * 3 * t)"
      by (rule IH)
    also have "\<dots> = (case mcd (Suc n) m h of None \<Rightarrow> 0 | Some t \<Rightarrow> s + c * t)"
      using True by (simp add: algebra_simps split: option.splits)
    finally show ?thesis .
  next
    case False
    then have sw: "(if m mod 3 = 1 then 2 else 1) = sw (m mod 3)" using r by (auto simp: sw_def)
    show ?thesis
    proof (cases "h mod 3 = 0")
      case h0: True
      have "mcomp_loop j (j + int (Suc n)) m h c s
          = mcomp_loop (j + 1) ((j + 1) + int n) (m div 3) (h div 3) (c * 3)
              (s + sw (m mod 3) * c)"
        unfolding step sw using False h0 by simp
      also have "\<dots> = (case mcd n (m div 3) (h div 3) of None \<Rightarrow> 0
             | Some t \<Rightarrow> (s + sw (m mod 3) * c) + c * 3 * t)"
        by (rule IH)
      also have "\<dots> = (case mcd (Suc n) m h of None \<Rightarrow> 0 | Some t \<Rightarrow> s + c * t)"
        using False h0 by (simp add: algebra_simps split: option.splits)
      finally show ?thesis .
    next
      case h1: False
      show ?thesis unfolding step using False h1 by simp
    qed
  qed
qed

lemma mcomplement_mcd:
  assumes "0 \<le> m" "0 \<le> h" "0 \<le> k"
  shows "mcomplement m h k = (case mcd (nat k) m h of None \<Rightarrow> 0 | Some t \<Rightarrow> t)"
proof -
  have "mcomp_loop 0 (0 + int (nat k)) m h 1 0 = (case mcd (nat k) m h of None \<Rightarrow> 0 | Some t \<Rightarrow> 0 + 1 * t)"
    by (rule mcomp_loop_mcd[OF assms(1,2)])
  then show ?thesis using assms(3) by (simp add: mcomplement_def split: option.splits)
qed

lemma mcd_range:
  "mcd n m h = Some t \<Longrightarrow> 0 \<le> m \<Longrightarrow> 0 \<le> h \<Longrightarrow> 0 \<le> t \<and> t < 3 ^ n"
proof (induction n arbitrary: m h t)
  case 0
  then show ?case by simp
next
  case (Suc n)
  have m3: "0 \<le> m div 3" using Suc.prems(2) by simp
  have h3: "0 \<le> h div 3" "0 \<le> h mod 3" "h mod 3 < 3" using Suc.prems(3) by simp_all
  have s: "0 \<le> sw (m mod 3)" "sw (m mod 3) < 3" using sw_range[of "m mod 3"] by simp_all
  from Suc.prems(1) obtain t' d where t': "mcd n (m div 3) (h div 3) = Some t'"
    "t = d + 3 * t'" "0 \<le> d" "d < 3"
    using h3(2,3) s by (auto split: if_splits)
  have "0 \<le> t' \<and> t' < 3 ^ n" by (rule Suc.IH[OF t'(1) m3 h3(1)])
  then show ?case using t'(2,3,4) by simp
qed

lemma mcd_neq_m:
  "mcd n m h = Some t \<Longrightarrow> 0 \<le> m \<Longrightarrow> m < 3 ^ n \<Longrightarrow> t = m \<Longrightarrow> m = 0"
proof (induction n arbitrary: m h t)
  case 0
  then show ?case by simp
next
  case (Suc n)
  have m3: "0 \<le> m div 3" "m div 3 < 3 ^ n" using Suc.prems(2,3) by simp_all
  have mm: "m = m mod 3 + 3 * (m div 3)" by simp
  have mr: "0 \<le> m mod 3" "m mod 3 < 3" by simp_all
  show ?case
  proof (cases "m mod 3 = 0")
    case True
    then obtain t' where t': "mcd n (m div 3) (h div 3) = Some t'" "t = h mod 3 + 3 * t'"
      using Suc.prems(1) by auto
    have hr: "0 \<le> h mod 3" "h mod 3 < 3" by simp_all
    have "t div 3 = t'" unfolding t'(2) by (rule digits_of_sum(2)[OF hr])
    then have "t' = m div 3" using Suc.prems(4) by simp
    then have "m div 3 = 0" using Suc.IH[OF t'(1) m3] by simp
    then show ?thesis using True mm by simp
  next
    case False
    then obtain t' where t': "mcd n (m div 3) (h div 3) = Some t'" "t = sw (m mod 3) + 3 * t'"
      using Suc.prems(1) by (auto split: if_splits)
    have s: "0 \<le> sw (m mod 3)" "sw (m mod 3) < 3" using sw_range[of "m mod 3"] by simp_all
    have "t mod 3 = sw (m mod 3)" unfolding t'(2) by (rule digits_of_sum(1)[OF s])
    then have "sw (m mod 3) = m mod 3" using Suc.prems(4) by simp
    moreover have "0 < m mod 3" using False mr(1) by linarith
    ultimately show ?thesis using sw_neq[OF _ mr(2)] by simp
  qed
qed

lemma mcd_neq_op:
  "mcd n m h = Some t \<Longrightarrow> 0 \<le> m \<Longrightarrow> 0 \<le> h \<Longrightarrow> h < 3 ^ n \<Longrightarrow> t = op m \<Longrightarrow> h = 0"
proof (induction n arbitrary: m h t)
  case 0
  then show ?case by simp
next
  case (Suc n)
  have m3: "0 \<le> m div 3" using Suc.prems(2) by simp
  have h3: "0 \<le> h div 3" "h div 3 < 3 ^ n" using Suc.prems(3,4) by simp_all
  have hh: "h = h mod 3 + 3 * (h div 3)" by simp
  have hr: "0 \<le> h mod 3" "h mod 3 < 3" by simp_all
  have s: "0 \<le> sw (m mod 3)" "sw (m mod 3) < 3" using sw_range[of "m mod 3"] by simp_all
  note om = op_mod_div[OF Suc.prems(2)]
  show ?case
  proof (cases "m mod 3 = 0")
    case True
    then obtain t' where t': "mcd n (m div 3) (h div 3) = Some t'" "t = h mod 3 + 3 * t'"
      using Suc.prems(1) by auto
    have d: "t div 3 = t'" "t mod 3 = h mod 3"
      unfolding t'(2) using digits_of_sum[OF hr, of t'] by simp_all
    have "t' = op (m div 3)" using d(1) om(2) Suc.prems(5) by simp
    then have "h div 3 = 0" by (rule Suc.IH[OF t'(1) m3 h3])
    moreover have "h mod 3 = 0" using d(2) om(1) Suc.prems(5) True by (simp add: sw_def)
    ultimately show ?thesis using hh by simp
  next
    case False
    then have h0: "h mod 3 = 0" using Suc.prems(1) by (auto split: if_splits)
    obtain t' where t': "mcd n (m div 3) (h div 3) = Some t'" "t = sw (m mod 3) + 3 * t'"
      using Suc.prems(1) False h0 by auto
    have d: "t div 3 = t'" unfolding t'(2) by (rule digits_of_sum(2)[OF s])
    have "t' = op (m div 3)" using d om(2) Suc.prems(5) by simp
    then have "h div 3 = 0" by (rule Suc.IH[OF t'(1) m3 h3])
    then show ?thesis using hh h0 by simp
  qed
qed

lemma add_inner_Some:
  "add_inner m hc k js = Some hc' \<Longrightarrow>
     \<exists>j\<in>set js. mcomplement m (hc ! j) k \<noteq> 0 \<and> isfree (mcomplement m (hc ! j) k) hc
        \<and> hc' = qsort (hc[j := mcomplement m (hc ! j) k] @ [m]) (int (length hc) + 1)"
proof (induction js)
  case Nil
  then show ?case by simp
next
  case (Cons j js)
  show ?case
  proof (cases "mcomplement m (hc ! j) k \<noteq> 0 \<and> isfree (mcomplement m (hc ! j) k) hc")
    case True
    then have "hc' = qsort (hc[j := mcomplement m (hc ! j) k] @ [m]) (int (length hc) + 1)"
      using Cons.prems by (simp add: Let_def)
    then show ?thesis using True by simp
  next
    case False
    have "add_inner m hc k js = Some hc'"
      using Cons.prems unfolding add_inner.simps Let_def by (simp only: if_not_P[OF False])
    then show ?thesis using Cons.IH by simp
  qed
qed

lemma add_outer_Inr:
  "add_outer hc k ms = Inr hc' \<Longrightarrow>
     \<exists>m\<in>set ms. isfree m hc \<and> add_inner m hc k [0..<length hc] = Some hc'"
proof (induction ms)
  case Nil
  then show ?case by simp
next
  case (Cons m ms)
  show ?case
  proof (cases "isfree m hc")
    case False
    then have "add_outer hc k ms = Inr hc'" using Cons.prems by simp
    then show ?thesis using Cons.IH by simp
  next
    case True
    show ?thesis
    proof (cases "add_inner m hc k [0..<length hc]")
      case None
      then have "add_outer hc k ms = Inr hc'" using Cons.prems True by simp
      then show ?thesis using Cons.IH by simp
    next
      case (Some h)
      then have "h = hc'" using Cons.prems True by simp
      then show ?thesis using True Some by simp
    qed
  qed
qed

text \<open>Two more codes \<open>t\<close> and \<open>m\<close> that are free and no complements of each other.\<close>

lemma codes_ok_two_more:
  assumes ok: "codes_ok n hc"
    and m: "0 < m" "m < 3 ^ n" "isfree m hc"
    and t: "0 < t" "t < 3 ^ n" "isfree t hc"
    and tm: "t \<noteq> m" and tom: "t \<noteq> op m"
    and L: "set L \<subseteq> insert t (insert m (set hc))" "distinct L"
  shows "codes_ok n L"
proof -
  have r: "\<forall>x\<in>set hc. 0 < x \<and> x < 3 ^ n"
    and o: "\<forall>x\<in>set hc. \<forall>y\<in>set hc. x \<noteq> op y"
    using ok unfolding codes_ok_def by simp_all
  have fm: "m \<notin> set hc" "m \<notin> op ` set hc" using m(3) by (simp_all add: isfree_iff)
  have ft: "t \<notin> set hc" "t \<notin> op ` set hc" using t(3) by (simp_all add: isfree_iff)
  have m0: "0 \<le> m" and t0: "0 \<le> t" using m(1) t(1) by simp_all
  have no: "x \<noteq> op u" if "x \<in> set hc" "0 \<le> u" "u \<notin> op ` set hc" for x u
  proof
    assume "x = op u"
    then have "op x = u" using op_op[OF that(2)] by simp
    then have "u \<in> op ` set hc" using that(1) by (simp only: image_eqI[where x = x])
    then show False using that(3) by simp
  qed
  have on: "u \<noteq> op y" if "y \<in> set hc" "u \<notin> op ` set hc" for y u
    using that by (auto simp only: image_eqI)
  have mt: "m \<noteq> op t"
  proof
    assume "m = op t"
    then have "op m = t" using op_op[OF t0] by simp
    then show False using tom by simp
  qed
  have mem: "x \<in> set hc \<or> x = t \<or> x = m" if "x \<in> set L" for x using L(1) that by auto
  have rng: "\<forall>x\<in>set L. 0 < x \<and> x < 3 ^ n"
  proof
    fix x assume "x \<in> set L"
    then have "x \<in> set hc \<or> x = t \<or> x = m" by (rule mem)
    then show "0 < x \<and> x < 3 ^ n" using bspec[OF r, of x] m(1,2) t(1,2) by auto
  qed
  have cl: "\<forall>x\<in>set L. \<forall>y\<in>set L. x \<noteq> op y"
  proof (intro ballI)
    fix x y assume "x \<in> set L" "y \<in> set L"
    then have "x \<in> set hc \<or> x = t \<or> x = m" "y \<in> set hc \<or> y = t \<or> y = m" by (simp_all only: mem)
    then consider "x \<in> set hc" "y \<in> set hc" | "x \<in> set hc" "y = t" | "x \<in> set hc" "y = m"
      | "x = t" "y \<in> set hc" | "x = m" "y \<in> set hc"
      | "x = t" "y = t" | "x = m" "y = m" | "x = t" "y = m" | "x = m" "y = t" by blast
    then show "x \<noteq> op y"
    proof cases
      case 1 then show ?thesis using bspec[OF bspec[OF o]] by simp
    next
      case 2 then show ?thesis using no[OF 2(1) t0 ft(2)] by simp
    next
      case 3 then show ?thesis using no[OF 3(1) m0 fm(2)] by simp
    next
      case 4 then show ?thesis using on[OF 4(2) ft(2)] by simp
    next
      case 5 then show ?thesis using on[OF 5(2) fm(2)] by simp
    next
      case 6 then show ?thesis using op_neq_self[OF t(1)] by simp
    next
      case 7 then show ?thesis using op_neq_self[OF m(1)] by simp
    next
      case 8 then show ?thesis using tom by simp
    next
      case 9 then show ?thesis using mt by simp
    qed
  qed
  show ?thesis unfolding codes_ok_def by (intro conjI rng L(2) cl)
qed

text \<open>A step of \<^verbatim>\<open>add\<close> on a table of all \<open>nc\<close> codes keeps the invariant.\<close>

lemma add_ok:
  assumes ok: "codes_ok (nat k) hc" and k: "0 \<le> k" and a: "add hc k (int (length hc)) = Inr hc'"
  shows "codes_ok (nat k) hc' \<and> length hc' = Suc (length hc)"
proof -
  from a have "add_outer hc k [1..ipow 3 k - 1] = Inr hc'" by (simp add: add_def)
  then obtain m where m: "m \<in> set [1..ipow 3 k - 1]" "isfree m hc"
    "add_inner m hc k [0..<length hc] = Some hc'"
    using add_outer_Inr by blast
  define tf where "tf j = mcomplement m (hc ! j) k" for j
  obtain j where j: "j \<in> set [0..<length hc]" "tf j \<noteq> 0" "isfree (tf j) hc"
    "hc' = qsort (hc[j := tf j] @ [m]) (int (length hc) + 1)"
    using add_inner_Some[OF m(3)] unfolding tf_def by blast
  define t where "t = tf j"
  define h where "h = hc ! j"
  have jl: "j < length hc" using j(1) by simp
  have mr: "1 \<le> m" "m < 3 ^ nat k" "0 \<le> m" "0 < m" using m(1) by (simp_all add: ipow_eq)
  have hin: "h \<in> set hc" unfolding h_def using jl by simp
  have r: "\<forall>x\<in>set hc. 0 < x \<and> x < 3 ^ nat k" and d: "distinct hc"
    using ok unfolding codes_ok_def by simp_all
  have hr: "0 < h \<and> h < 3 ^ nat k" using hin by (rule bspec[OF r])
  then have h0: "0 \<le> h" "h < 3 ^ nat k" "h \<noteq> 0" by simp_all
  have "t = (case mcd (nat k) m h of None \<Rightarrow> 0 | Some t \<Rightarrow> t)"
    unfolding t_def tf_def h_def[symmetric] by (rule mcomplement_mcd[OF mr(3) h0(1) k])
  moreover have tn: "t \<noteq> 0" using j(2) by (simp add: t_def)
  ultimately have mc: "mcd (nat k) m h = Some t" by (cases "mcd (nat k) m h") simp_all
  have tr: "0 \<le> t \<and> t < 3 ^ nat k" by (rule mcd_range[OF mc mr(3) h0(1)])
  then have t0: "0 < t" "t < 3 ^ nat k" using tn by simp_all
  have tm: "t \<noteq> m"
  proof
    assume "t = m"
    then have "m = 0" by (rule mcd_neq_m[OF mc mr(3) mr(2)])
    then show False using mr(4) by simp
  qed
  have tom: "t \<noteq> op m"
  proof
    assume "t = op m"
    then have "h = 0" by (rule mcd_neq_op[OF mc mr(3) h0(1) h0(2)])
    then show False using h0(3) by simp
  qed
  have ft: "isfree t hc" using j(3) by (simp add: t_def)
  have tnot: "t \<notin> set hc" "m \<notin> set hc" using ft m(2) by (simp_all add: isfree_iff)
  let ?L = "hc[j := t] @ [m]"
  have sub1: "set (hc[j := t]) \<subseteq> insert t (set hc)" by (rule set_update_subset_insert)
  then have sub: "set ?L \<subseteq> insert t (insert m (set hc))" by auto
  have d1: "distinct (hc[j := t])" using d tnot(1) by (intro distinct_list_update) simp_all
  have "m \<notin> set (hc[j := t])" using sub1 tnot(2) tm by auto
  then have dl: "distinct ?L" using d1 by simp
  have okL: "codes_ok (nat k) ?L"
    by (rule codes_ok_two_more[OF ok mr(4) mr(2) m(2) t0 ft tm tom sub dl])
  have e: "hc' = sort ?L" using j(4) by (simp add: qsort_def t_def)
  have "codes_ok (nat k) (sort ?L)"
    using okL codes_ok_mset[of "sort ?L" ?L "nat k"] by (simp only: mset_sort)
  then show ?thesis using e by simp
qed

lemma add_loop_ok:
  "add_loop hc k n n_coins = Inr hc' \<Longrightarrow> n = int (length hc) \<Longrightarrow> codes_ok (nat k) hc
     \<Longrightarrow> 0 \<le> k \<Longrightarrow> codes_ok (nat k) hc'"
proof (induction hc k n n_coins rule: add_loop.induct)
  case (1 hcode k n n_coins)
  show ?case
  proof (cases "n < n_coins")
    case False
    then have "hc' = hcode" using "1.prems"(1) by (subst (asm) add_loop.simps) simp
    then show ?thesis using "1.prems"(3) by simp
  next
    case True
    from "1.prems"(1) True obtain h1 where h1: "add hcode k n = Inr h1"
      "add_loop h1 k (n + 1) n_coins = Inr hc'"
      by (subst (asm) add_loop.simps) (auto simp: bnd_Inr)
    have a: "codes_ok (nat k) h1 \<and> length h1 = Suc (length hcode)"
      using add_ok[OF "1.prems"(3) "1.prems"(4)] h1(1) "1.prems"(2) by simp
    then have n1: "n + 1 = int (length h1)" using "1.prems"(2) by simp
    show ?thesis using "1.IH"[OF True h1(2) n1 conjunct1[OF a] "1.prems"(4)] .
  qed
qed

text \<open>
  Claim C2. Let \<open>b\<close> be the table of heavy codes that \<^verbatim>\<open>getbase\<close> returns for \<open>j \<ge> 2\<close>
  weighings and \<open>hc\<close> the table after any number of steps of \<^verbatim>\<open>add\<close> with \<open>k \<ge> j\<close> digits
  (the loop of \<^verbatim>\<open>weigh_static\<close> up to \<open>n_coins\<close> coins; \<open>hc\<close> is \<open>b\<close> when no coin is
  added). Then the codes of two different coins \<open>i\<close> and \<open>i'\<close> of \<open>hc\<close> differ, and no code
  is the base-3 complement \<^verbatim>\<open>op\<close> of the code of another coin.
\<close>

theorem code_table_unique:
  assumes "2 \<le> j" and "j \<le> k" and "getbase j = Some (Inr b)"
    and "add_loop b k (int (length b)) n_coins = Inr hc"
    and "i < length hc" and "i' < length hc" and "i \<noteq> i'"
  shows "hc ! i \<noteq> hc ! i' \<and> hc ! i \<noteq> op (hc ! i')"
proof -
  obtain b' where b': "getbase j = Some (Inr b')" "codes_ok (nat j) b'"
    using getbase_invariant[OF assms(1)] by blast
  have "b' = b" using b'(1) assms(3) by simp
  then have "codes_ok (nat j) b" using b'(2) by simp
  moreover have "nat j \<le> nat k" using assms(2) by simp
  ultimately have okb: "codes_ok (nat k) b" by (rule codes_ok_mono)
  have k0: "0 \<le> k" using assms(1,2) by simp
  have ok: "codes_ok (nat k) hc" by (rule add_loop_ok[OF assms(4) refl okb k0])
  then have d: "distinct hc" and o: "\<forall>x\<in>set hc. \<forall>y\<in>set hc. x \<noteq> op y"
    unfolding codes_ok_def by simp_all
  have "hc ! i \<noteq> hc ! i'" using d assms(5,6,7) by (simp add: nth_eq_iff_index_eq)
  moreover have "hc ! i \<noteq> op (hc ! i')"
    using bspec[OF bspec[OF o, of "hc ! i"], of "hc ! i'"] assms(5,6) by simp
  ultimately show ?thesis by simp
qed

theorem code_table_unique_witness:
  "(2::int) \<le> 2 \<and> (2::int) \<le> 3 \<and> getbase 2 = Some (Inr [1, 8, 3])
   \<and> add_loop [1, 8, 3] 3 (int (length [1, 8, 3 :: int])) 5 = Inr [1, 5, 8, 9, 19]
   \<and> (0::nat) < length [1, 5, 8, 9, 19 :: int] \<and> (1::nat) < length [1, 5, 8, 9, 19 :: int]
   \<and> (0::nat) \<noteq> 1
   \<and> [1, 5, 8, 9, 19] ! 0 \<noteq> [1, 5, 8, 9, 19 :: int] ! 1
   \<and> [1, 5, 8, 9, 19] ! 0 \<noteq> op ([1, 5, 8, 9, 19] ! 1)"
proof -
  have g: "getbase 2 = Some (Inr [1, 8, 3])" by (rule getbase_2)
  have a: "add_loop [1, 8, 3] 3 (int (length [1, 8, 3 :: int])) 5 = Inr [1, 5, 8, 9, 19]"
    by code_simp
  have l: "(0::nat) < length [1, 5, 8, 9, 19 :: int]" "(1::nat) < length [1, 5, 8, 9, 19 :: int]"
    "(0::nat) \<noteq> 1" by simp_all
  have j: "(2::int) \<le> 2" "(2::int) \<le> 3" by simp_all
  show ?thesis using g a code_table_unique[OF j g a l] by simp
qed

end
